theory Spec2Isabelle
  imports Complex_Main "HOL-Library.Word"
begin

section \<open>Arrays of particles with masses (particles\_base.h)\<close>

text \<open>
  Conventions of the embedding.
  \<^item> \<^verbatim>\<open>unsigned int\<close> is a \<^typ>\<open>32 word\<close>; \<^verbatim>\<open>std::vector::size()\<close> returns a
    \<^verbatim>\<open>size_t\<close>, which is wider, so it is the length of the list as a natural number.
  \<^item> The particle type \<^verbatim>\<open>ParticleT\<close> of the template is a type variable.
  \<^item> The weight of a particle is a \<^verbatim>\<open>double\<close>. \<^verbatim>\<open>add\<close> and the conversion constructor store
    and copy weights and do not compute with them, so the container is written for a
    weight type \<open>'w\<close>; \<^verbatim>\<open>totalMass\<close> adds weights and is written for the weight type
    \<open>double\<close> of the next subsection.
  \<^item> A member function that changes the object returns the changed object.
\<close>

record ('p, 'w) PointMassArray =
  data :: "('p \<times> 'w) list"

text \<open>\<^verbatim>\<open>unsigned int size() const { return data.size(); }\<close>: the conversion to
  \<^verbatim>\<open>unsigned int\<close> keeps the low 32 bits.\<close>

definition sizeP :: "('p, 'w) PointMassArray \<Rightarrow> 32 word" where
  "sizeP p = word_of_nat (length (data p))"

text \<open>\<^verbatim>\<open>void add(const ParticleT &first, const double second) { data.push_back(ElemType(first, second)); }\<close>:
  there is no check of \<^verbatim>\<open>second\<close> and no \<^verbatim>\<open>throw\<close>, so the model has no error result.\<close>

definition add :: "('p, 'w) PointMassArray \<Rightarrow> 'p \<Rightarrow> 'w \<Rightarrow> ('p, 'w) PointMassArray" where
  "add p first second = p\<lparr>data := data p @ [(first, second)]\<rparr>"

subsection \<open>Double-precision numbers and their addition\<close>

text \<open>
  A \<^verbatim>\<open>double\<close> is a binary64 number of IEEE 754: a NaN (payloads and the sign of a NaN are
  not distinguished), an infinity with its sign, or a finite number, given by its sign
  (\<open>True\<close> is negative), its significand \<open>m\<close> and its exponent \<open>e\<close>; its value is
  \<open>m * 2 ^ e\<close>, negated when the sign is set. The encodings of the format are those with
  \<open>m < 2 ^ 53\<close> and \<open>- 1074 \<le> e \<le> 971\<close> in which \<open>m\<close> has its leading bit at position 52
  (a normal number) or \<open>e = - 1074\<close> (a subnormal number or a zero).
\<close>

datatype double = Finite bool nat int | Infinity bool | NaN

fun is_double :: "double \<Rightarrow> bool" where
  "is_double (Finite s m e) =
     (m < 2 ^ 53 \<and> - 1074 \<le> e \<and> e \<le> 971 \<and> (2 ^ 52 \<le> m \<or> e = - 1074))"
| "is_double (Infinity s) = True"
| "is_double NaN = True"

text \<open>The number of binary digits of a natural number.\<close>

fun bitlen :: "nat \<Rightarrow> nat" where
  "bitlen n = (if n = 0 then 0 else Suc (bitlen (n div 2)))"

declare bitlen.simps [simp del]

text \<open>
  The double with the sign \<open>s\<close> and the value \<open>m * 2 ^ e\<close>, for \<open>m < 2 ^ 53\<close>: the significand
  is shifted to the left as far as the format allows; a number beyond the largest finite
  double is an infinity.
\<close>

definition normalise :: "bool \<Rightarrow> nat \<Rightarrow> int \<Rightarrow> double" where
  "normalise s m e =
     (let j = min (53 - bitlen m) (nat (e + 1074))
      in if 971 < e - int j then Infinity s else Finite s (m * 2 ^ j) (e - int j))"

text \<open>
  Rounding to nearest, ties to even (the rounding mode a C++ program starts in; every
  operation is rounded to the format): the double nearest to \<open>m * 2 ^ e\<close>, for \<open>0 < m\<close> and
  \<open>- 1074 \<le> e\<close>. The \<open>k\<close> digits of \<open>m\<close> beyond 53 are dropped; the significand is
  incremented when they are more than half a unit in the last place, or exactly half and
  the significand is odd.
\<close>

definition round_double :: "bool \<Rightarrow> nat \<Rightarrow> int \<Rightarrow> double" where
  "round_double s m e =
     (let k = bitlen m - 53;
          q = m div 2 ^ k;
          r = m mod 2 ^ k;
          q' = (if 2 ^ k < 2 * r \<or> (2 * r = 2 ^ k \<and> odd q) then q + 1 else q)
      in if q' = 2 ^ 53 then normalise s (2 ^ 52) (e + int k + 1) else normalise s q' (e + int k))"

text \<open>The integer of magnitude \<open>m\<close> that is negative when the sign \<open>s\<close> is set.\<close>

definition with_sign :: "bool \<Rightarrow> nat \<Rightarrow> int" where
  "with_sign s m = (if s then - int m else int m)"

text \<open>
  \<^verbatim>\<open>x + y\<close> on doubles: a NaN operand gives a NaN, infinities of opposite signs give a NaN,
  an infinity and a finite number give the infinity; the sum of two finite numbers is
  computed exactly and rounded. An exact sum of zero is \<open>+0\<close>, and \<open>-0\<close> only when both
  operands are \<open>-0\<close>.
\<close>

fun double_add :: "double \<Rightarrow> double \<Rightarrow> double" where
  "double_add NaN y = NaN"
| "double_add (Infinity s) NaN = NaN"
| "double_add (Finite s m e) NaN = NaN"
| "double_add (Infinity s) (Infinity t) = (if s = t then Infinity s else NaN)"
| "double_add (Infinity s) (Finite t n f) = Infinity s"
| "double_add (Finite s m e) (Infinity t) = Infinity t"
| "double_add (Finite s m e) (Finite t n f) =
     (let g = min e f;
          v = with_sign s (m * 2 ^ nat (e - g)) + with_sign t (n * 2 ^ nat (f - g))
      in if v = 0 then Finite (s \<and> t) 0 (- 1074) else round_double (v < 0) (nat \<bar>v\<bar>) g)"

text \<open>The real number a finite double stands for; it is used to state properties only.\<close>

fun valof :: "double \<Rightarrow> real" where
  "valof (Finite s m e) = real_of_int (with_sign s m) * 2 powi e"
| "valof (Infinity s) = 0"
| "valof NaN = 0"

text \<open>
  No weight of the list and no running sum, starting from \<open>acc\<close>, is an infinity or a NaN.
\<close>

fun is_finite :: "double \<Rightarrow> bool" where
  "is_finite (Finite s m e) = True"
| "is_finite (Infinity s) = False"
| "is_finite NaN = False"

fun finite_sums :: "double \<Rightarrow> double list \<Rightarrow> bool" where
  "finite_sums acc [] = is_finite acc"
| "finite_sums acc (w # ws) = (is_finite acc \<and> is_finite w \<and> finite_sums (double_add acc w) ws)"

text \<open>The conversion of an \<^verbatim>\<open>int\<close> to \<^verbatim>\<open>double\<close>, as in \<^verbatim>\<open>double sum=0;\<close>.\<close>

definition double_of_int :: "int \<Rightarrow> double" where
  "double_of_int v =
     (if v = 0 then Finite False 0 (- 1074) else round_double (v < 0) (nat \<bar>v\<bar>) 0)"

subsection \<open>The total mass and the conversion constructor\<close>

text \<open>
  \<^verbatim>\<open>totalMass\<close>: \<^verbatim>\<open>double sum=0; for(unsigned int i=0; i<data.size(); i++) sum += data[i].second;\<close>
  The counter is 32 bits wide and is compared with the \<^verbatim>\<open>size_t\<close> length; \<^verbatim>\<open>i++\<close> wraps
  around. The loop need not end, so it is a partial function: \<open>None\<close> is "does not return".
\<close>

partial_function (option) totalMass_loop ::
  "('p \<times> double) list \<Rightarrow> 32 word \<Rightarrow> double \<Rightarrow> double option" where
  "totalMass_loop d i acc =
     (if unat i < length d then totalMass_loop d (i + 1) (double_add acc (snd (d ! unat i)))
      else Some acc)"

definition totalMass :: "('p, double) PointMassArray \<Rightarrow> double option" where
  "totalMass p = totalMass_loop (data p) 0 (double_of_int 0)"

text \<open>
  The conversion constructor
  \<^verbatim>\<open>template<typename OtherParticleT> PointMassArray(const PointMassArray<OtherParticleT> &src)\<close>:
  \<^verbatim>\<open>for(unsigned int i=0; i<src.size(); i++) data.push_back(ElemType(conv(src[i].first), src[i].second));\<close>
  Here the bound is \<^verbatim>\<open>src.size()\<close>, the 32-bit size. \<open>conv\<close> is the functor
  \<^verbatim>\<open>Converter<OtherParticleT, ParticleT>\<close>.
\<close>

function conv_loop ::
  "('a \<Rightarrow> 'b) \<Rightarrow> ('a, 'w) PointMassArray \<Rightarrow> 32 word \<Rightarrow> ('b \<times> 'w) list \<Rightarrow> ('b \<times> 'w) list" where
  "conv_loop conv src i d =
     (if i < sizeP src
      then conv_loop conv src (i + 1) (d @ [(conv (fst (data src ! unat i)), snd (data src ! unat i))])
      else d)"
  by pat_completeness auto
termination
proof (relation "measure (\<lambda>(conv, src, i, d). unat (sizeP src) - unat i)")
  show "wf (measure (\<lambda>(conv, src, i, d). unat (sizeP src) - unat i))" by simp
next
  fix conv :: "'a \<Rightarrow> 'b" and src :: "('a, 'w) PointMassArray" and i :: "32 word"
    and d :: "('b \<times> 'w) list"
  assume lt: "i < sizeP src"
  then have "unat i < unat (sizeP src)" by (simp add: word_less_nat_alt)
  moreover have "unat (sizeP src) < 2 ^ 32" using unsigned_less [of "sizeP src"] by simp
  ultimately have "unat i + 1 < 2 ^ 32" by arith
  then have "unat (i + 1) = Suc (unat i)" by (simp add: unat_word_ariths)
  with \<open>unat i < unat (sizeP src)\<close>
  show "((conv, src, i + 1, d @ [(conv (fst (data src ! unat i)), snd (data src ! unat i))]), conv, src, i, d)
        \<in> measure (\<lambda>(conv, src, i, d). unat (sizeP src) - unat i)"
    by simp
qed

declare conv_loop.simps [simp del]

definition PointMassArray_from ::
  "('a \<Rightarrow> 'b) \<Rightarrow> ('a, 'w) PointMassArray \<Rightarrow> ('b, 'w) PointMassArray" where
  "PointMassArray_from conv src = \<lparr>data = conv_loop conv src 0 []\<rparr>"

subsection \<open>The table of \<^verbatim>\<open>Converter\<close> specialisations\<close>

text \<open>
  The particle types are \<^verbatim>\<open>coord::PosT<coordT>\<close> and \<^verbatim>\<open>coord::PosVelT<coordT>\<close> with
  \<^verbatim>\<open>coordT\<close> one of \<^verbatim>\<open>coord::Car\<close>, \<^verbatim>\<open>coord::Cyl\<close>, \<^verbatim>\<open>coord::Sph\<close>. The primary template
  \<^verbatim>\<open>Converter<SrcT, DestT>\<close> declares \<^verbatim>\<open>operator()\<close> and does not define it; three partial
  specialisations define it by a call of \<^verbatim>\<open>coord::toPosVel\<close> or \<^verbatim>\<open>coord::toPos\<close> (both of
  coord.h, which is not part of these sources). The table maps a pair of particle types to
  the transformation the selected \<^verbatim>\<open>operator()\<close> calls; \<open>None\<close> is the primary template, for
  which no definition of \<^verbatim>\<open>operator()\<close> exists. When a program that instantiates this
  conversion is refused (by the linker or by the loader) is decided by the way it is built,
  which the embedding does not describe.
\<close>

datatype coordT = Car | Cyl | Sph

datatype ParticleT = PosT coordT | PosVelT coordT

datatype transform = toPosVel coordT coordT | toPos coordT coordT

fun Converter :: "ParticleT \<Rightarrow> ParticleT \<Rightarrow> transform option" where
  "Converter (PosVelT SrcCoordT) (PosVelT DestCoordT) = Some (toPosVel SrcCoordT DestCoordT)"
| "Converter (PosVelT SrcCoordT) (PosT DestCoordT) = Some (toPos SrcCoordT DestCoordT)"
| "Converter (PosT SrcCoordT) (PosT DestCoordT) = Some (toPos SrcCoordT DestCoordT)"
| "Converter (PosT SrcCoordT) (PosVelT DestCoordT) = None"

section \<open>The dispatcher \<^verbatim>\<open>callAnyFunctionOnArray\<close> (py\_wrapper.cpp)\<close>

text \<open>
  Conventions of the embedding.
  \<^item> A numpy array of doubles in C order is its list of dimensions (\<^verbatim>\<open>PyArray_DIM\<close>) and its
    buffer (\<^verbatim>\<open>PyArray_DATA\<close>). The arrays that exist are a list, the heap; the address of an
    array is its index. An allocation appends to the heap; nothing is freed (reference
    counts are not modelled).
  \<^item> A Python object passed by the caller is described by what the two conversions the
    dispatcher applies make of it: the format unit \<^verbatim>\<open>d\<close> of \<^verbatim>\<open>PyArg_ParseTuple\<close> (a number or
    a failure) and \<^verbatim>\<open>PyArray_FROM_OTF(obj, NPY_DOUBLE, NPY_ARRAY_IN_ARRAY)\<close> (a failure, the
    object itself when it already is such an array, or a new array).
  \<^item> \<^verbatim>\<open>anyFunction\<close>, \<^verbatim>\<open>void (*)(PyObject* obj, const double input[], double *result)\<close>: the
    object is fixed, so the function maps the numbers at \<^verbatim>\<open>input\<close> to what
    \<^verbatim>\<open>result[]\<close> holds after the call (\<^verbatim>\<open>outputLength\<close> numbers: the computation functions of
    the source assign every slot), or to the \<^verbatim>\<open>what()\<close> of the \<^verbatim>\<open>std::exception\<close> it throws.
  \<^item> The dispatcher moves doubles (arguments, cells of arrays, results) and does not compute
    with them: a number it moves is a \<^typ>\<open>real\<close> here.
  \<^item> A returned \<^verbatim>\<open>PyObject*\<close> is a value or, for \<^verbatim>\<open>NULL\<close>, the Python error that is set.
  \<^item> \<^verbatim>\<open>int\<close> is 32 bits wide and \<^verbatim>\<open>npy_intp\<close> 64. A signed overflow and a write outside a
    buffer are undefined behaviour in C++: the model then has no outcome (\<open>None\<close>).
  \<^item> The template arguments are values of the two enumerations. A template function that
    the source declares and specialises for some arguments only has equations for those
    arguments only.
\<close>

datatype INPUT_VALUE = INPUT_VALUE_SINGLE | INPUT_VALUE_TRIPLET | INPUT_VALUE_SEXTET

text \<open>The enumerator as the template argument \<^verbatim>\<open>int numArgs\<close>.\<close>

fun enum_value :: "INPUT_VALUE \<Rightarrow> nat" where
  "enum_value INPUT_VALUE_SINGLE = 1"
| "enum_value INPUT_VALUE_TRIPLET = 3"
| "enum_value INPUT_VALUE_SEXTET = 6"

datatype OUTPUT_VALUE =
    OUTPUT_VALUE_SINGLE
  | OUTPUT_VALUE_TRIPLET
  | OUTPUT_VALUE_SEXTET
  | OUTPUT_VALUE_TRIPLET_AND_TRIPLET
  | OUTPUT_VALUE_TRIPLET_AND_SEXTET

record ndarray =
  dims :: "nat list"
  cells :: "real list"

type_synonym heap = "ndarray list"

datatype array_conv = NotAnArray | SameArray nat | NewArray ndarray

datatype pyobj = PyObj (PyFloat_AsDouble: "real option") (as_array: array_conv)

datatype pyval = Float real | Tuple "pyval list" | Array nat

text \<open>\<^verbatim>\<open>PyErr_SetString(PyExc_ValueError, ...)\<close>, or the error \<^verbatim>\<open>PyArray_SimpleNew\<close> has set.\<close>

datatype py_error = ValueError string | NumPyError

type_synonym anyFunction = "real list \<Rightarrow> string + real list"

fun inputLength :: "INPUT_VALUE \<Rightarrow> nat" where
  "inputLength INPUT_VALUE_SINGLE = 1"
| "inputLength INPUT_VALUE_TRIPLET = 3"
| "inputLength INPUT_VALUE_SEXTET = 6"

text \<open>\<^verbatim>\<open>PyArg_ParseTuple(args, "d...d", ...)\<close> with \<open>n\<close> format units: the tuple has \<open>n\<close> items and
  each converts to a double.\<close>

definition PyArg_ParseTuple_d :: "nat \<Rightarrow> pyobj list \<Rightarrow> real list option" where
  "PyArg_ParseTuple_d n args = (if length args = n then those (map PyFloat_AsDouble args) else None)"

fun parseTuple :: "INPUT_VALUE \<Rightarrow> pyobj list \<Rightarrow> real list option" where
  "parseTuple INPUT_VALUE_TRIPLET args = PyArg_ParseTuple_d 3 args"
| "parseTuple INPUT_VALUE_SEXTET args = PyArg_ParseTuple_d 6 args"

fun errStrInvalidArrayDim :: "INPUT_VALUE \<Rightarrow> string" where
  "errStrInvalidArrayDim INPUT_VALUE_TRIPLET = ''Input does not contain valid Nx3 array''"
| "errStrInvalidArrayDim INPUT_VALUE_SEXTET = ''Input does not contain valid Nx6 array''"

fun errStrInvalidInput :: "INPUT_VALUE \<Rightarrow> string" where
  "errStrInvalidInput INPUT_VALUE_TRIPLET =
     ''Input does not contain valid data (either 3 numbers for a single point or a Nx3 array)''"
| "errStrInvalidInput INPUT_VALUE_SEXTET =
     ''Input does not contain valid data (either 6 numbers for a single point or a Nx6 array)''"

fun outputLength :: "OUTPUT_VALUE \<Rightarrow> nat" where
  "outputLength OUTPUT_VALUE_SINGLE = 1"
| "outputLength OUTPUT_VALUE_TRIPLET = 3"
| "outputLength OUTPUT_VALUE_SEXTET = 6"
| "outputLength OUTPUT_VALUE_TRIPLET_AND_TRIPLET = 6"
| "outputLength OUTPUT_VALUE_TRIPLET_AND_SEXTET = 9"

text \<open>\<^verbatim>\<open>Py_BuildValue\<close> with \<^verbatim>\<open>"d"\<close>, \<^verbatim>\<open>"ddd"\<close> and \<^verbatim>\<open>"(ddd)(dddddd)"\<close>.\<close>

fun formatTuple :: "OUTPUT_VALUE \<Rightarrow> real list \<Rightarrow> pyval" where
  "formatTuple OUTPUT_VALUE_SINGLE result = Float (result ! 0)"
| "formatTuple OUTPUT_VALUE_TRIPLET result =
     Tuple [Float (result ! 0), Float (result ! 1), Float (result ! 2)]"
| "formatTuple OUTPUT_VALUE_TRIPLET_AND_SEXTET result =
     Tuple [Tuple [Float (result ! 0), Float (result ! 1), Float (result ! 2)],
            Tuple [Float (result ! 3), Float (result ! 4), Float (result ! 5),
                   Float (result ! 6), Float (result ! 7), Float (result ! 8)]]"

text \<open>
  \<^verbatim>\<open>PyArray_SimpleNew(nd, dims, NPY_DOUBLE)\<close> fails on a negative dimension; otherwise the
  new array is at a fresh address and its memory is not initialised: \<open>uninit a i\<close> is what
  cell \<open>i\<close> of the array at address \<open>a\<close> happens to hold.
\<close>

definition PyArray_SimpleNew :: "(nat \<Rightarrow> nat \<Rightarrow> real) \<Rightarrow> int list \<Rightarrow> heap \<Rightarrow> nat option \<times> heap" where
  "PyArray_SimpleNew uninit ds h =
     (if list_ex (\<lambda>d. d < 0) ds then (None, h)
      else (Some (length h),
            h @ [\<lparr>dims = map nat ds, cells = map (uninit (length h)) [0..<prod_list (map nat ds)]\<rparr>]))"

text \<open>In the third specialisation \<^verbatim>\<open>Py_BuildValue("NN", arr1, arr2)\<close> returns \<^verbatim>\<open>NULL\<close> when one
  of the two is \<^verbatim>\<open>NULL\<close>.\<close>

fun allocOutputArr :: "OUTPUT_VALUE \<Rightarrow> (nat \<Rightarrow> nat \<Rightarrow> real) \<Rightarrow> int \<Rightarrow> heap \<Rightarrow> pyval option \<times> heap" where
  "allocOutputArr OUTPUT_VALUE_SINGLE uninit sz h =
     (case PyArray_SimpleNew uninit [sz] h of (arr, h') \<Rightarrow> (map_option Array arr, h'))"
| "allocOutputArr OUTPUT_VALUE_TRIPLET uninit sz h =
     (case PyArray_SimpleNew uninit [sz, 3] h of (arr, h') \<Rightarrow> (map_option Array arr, h'))"
| "allocOutputArr OUTPUT_VALUE_TRIPLET_AND_SEXTET uninit sz h =
     (case PyArray_SimpleNew uninit [sz, 3] h of (arr1, h1) \<Rightarrow>
      (case PyArray_SimpleNew uninit [sz, 6] h1 of (arr2, h2) \<Rightarrow>
        ((case (arr1, arr2) of
            (Some a1, Some a2) \<Rightarrow> Some (Tuple [Array a1, Array a2])
          | _ \<Rightarrow> None), h2)))"

text \<open>The value of an \<^verbatim>\<open>int\<close> expression, if it is one.\<close>

definition int_arith :: "int \<Rightarrow> int option" where
  "int_arith v = (if - (2 ^ 31) \<le> v \<and> v \<le> 2 ^ 31 - 1 then Some v else None)"

text \<open>\<^verbatim>\<open>numpt = PyArray_DIM(arr, 0)\<close> with \<^verbatim>\<open>int numpt\<close>: the conversion keeps the low 32 bits.\<close>

definition int_of_npy_intp :: "nat \<Rightarrow> int" where
  "int_of_npy_intp n = (let m = int n mod 2 ^ 32 in if m < 2 ^ 31 then m else m - 2 ^ 32)"

text \<open>\<^verbatim>\<open>((double*)PyArray_DATA(arr))[j] = v\<close>\<close>

definition store :: "nat \<Rightarrow> int \<Rightarrow> real \<Rightarrow> heap \<Rightarrow> heap option" where
  "store a j v h =
     (if a < length h \<and> 0 \<le> j \<and> nat j < length (cells (h ! a))
      then Some (h[a := (h ! a)\<lparr>cells := (cells (h ! a))[nat j := v]\<rparr>])
      else None)"

text \<open>\<^verbatim>\<open>for(int d=0; d<w; d++) ((double*)PyArray_DATA(arr))[index*w+d] = result[d+off];\<close>\<close>

fun write_row :: "nat \<Rightarrow> int \<Rightarrow> int \<Rightarrow> real list \<Rightarrow> nat \<Rightarrow> nat list \<Rightarrow> heap \<Rightarrow> heap option" where
  "write_row a index w result off [] h = Some h"
| "write_row a index w result off (d # ds) h =
     (case int_arith (index * w) of None \<Rightarrow> None
      | Some m \<Rightarrow>
     (case int_arith (m + int d) of None \<Rightarrow> None
      | Some j \<Rightarrow>
     (case store a j (result ! (d + off)) h of None \<Rightarrow> None
      | Some h' \<Rightarrow> write_row a index w result off ds h')))"

fun formatOutputArr :: "OUTPUT_VALUE \<Rightarrow> real list \<Rightarrow> int \<Rightarrow> pyval option \<Rightarrow> heap \<Rightarrow> heap option" where
  "formatOutputArr OUTPUT_VALUE_SINGLE result index (Some (Array arr)) h = store arr index (result ! 0) h"
| "formatOutputArr OUTPUT_VALUE_SINGLE result index resultObj h = None"
| "formatOutputArr OUTPUT_VALUE_TRIPLET result index (Some (Array arr)) h =
     write_row arr index 3 result 0 [0..<3] h"
| "formatOutputArr OUTPUT_VALUE_TRIPLET result index resultObj h = None"
| "formatOutputArr OUTPUT_VALUE_TRIPLET_AND_SEXTET result index (Some (Tuple [Array arr1, Array arr2])) h =
     (case write_row arr1 index 3 result 0 [0..<3] h of None \<Rightarrow> None
      | Some h' \<Rightarrow> write_row arr2 index 6 result 3 [0..<6] h')"
| "formatOutputArr OUTPUT_VALUE_TRIPLET_AND_SEXTET result index resultObj h = None"

definition PyArray_FROM_OTF :: "pyobj \<Rightarrow> heap \<Rightarrow> nat option \<times> heap" where
  "PyArray_FROM_OTF obj h =
     (case as_array obj of
        NotAnArray \<Rightarrow> (None, h)
      | SameArray a \<Rightarrow> (Some a, h)
      | NewArray arr \<Rightarrow> (Some (length h), h @ [arr]))"

text \<open>Pointers into the buffer of an array in C order: what is stored from the pointer on.\<close>

definition PyArray_GETPTR1 :: "ndarray \<Rightarrow> nat \<Rightarrow> real list" where
  "PyArray_GETPTR1 arr i = drop i (cells arr)"

definition PyArray_GETPTR2 :: "ndarray \<Rightarrow> int \<Rightarrow> nat \<Rightarrow> real list" where
  "PyArray_GETPTR2 arr i j = drop (nat i * (dims arr ! 1) + j) (cells arr)"

text \<open>The \<^verbatim>\<open>inputLength<numArgs>()\<close> numbers at \<^verbatim>\<open>input\<close>.\<close>

definition input_at :: "INPUT_VALUE \<Rightarrow> real list \<Rightarrow> real list" where
  "input_at numArgs ptr = take (inputLength numArgs) ptr"

text \<open>
  The loop over the input array,
  \<^verbatim>\<open>for(int i=0; i<numpt; i++) { fnc(self, PyArray_GETPTR2(arr, i, 0), result); formatOutputArr<numOutput>(result, i, resultObj); }\<close>.
  It ends with the exception that left it, if any, and the heap.
\<close>

function fnc_loop ::
  "INPUT_VALUE \<Rightarrow> OUTPUT_VALUE \<Rightarrow> anyFunction \<Rightarrow> nat \<Rightarrow> int \<Rightarrow> pyval option \<Rightarrow> int \<Rightarrow> heap
   \<Rightarrow> (string option \<times> heap) option" where
  "fnc_loop numArgs numOutput fnc arr numpt resultObj i h =
     (if i < numpt then
        (case fnc (input_at numArgs (PyArray_GETPTR2 (h ! arr) i 0)) of
           Inl e \<Rightarrow> Some (Some e, h)
         | Inr result \<Rightarrow>
             (case formatOutputArr numOutput result i resultObj h of
                None \<Rightarrow> None
              | Some h' \<Rightarrow> fnc_loop numArgs numOutput fnc arr numpt resultObj (i + 1) h'))
      else Some (None, h))"
  by pat_completeness auto
termination
  by (relation "measure (\<lambda>(numArgs, numOutput, fnc, arr, numpt, resultObj, i, h). nat (numpt - i))") auto

declare fnc_loop.simps [simp del]

text \<open>The handler \<^verbatim>\<open>catch(std::exception& e)\<close>.\<close>

definition caught :: "string \<Rightarrow> py_error + pyval" where
  "caught what = Inl (ValueError (''Exception occured: '' @ what))"

definition callAnyFunctionOnArray ::
  "INPUT_VALUE \<Rightarrow> OUTPUT_VALUE \<Rightarrow> anyFunction \<Rightarrow> (nat \<Rightarrow> nat \<Rightarrow> real) \<Rightarrow> heap \<Rightarrow> pyobj list
   \<Rightarrow> ((py_error + pyval) \<times> heap) option" where
  "callAnyFunctionOnArray numArgs numOutput fnc uninit h args =
     (case parseTuple numArgs args of
        Some input \<Rightarrow>
          (case fnc (input_at numArgs input) of
             Inl e \<Rightarrow> Some (caught e, h)
           | Inr result \<Rightarrow> Some (Inr (formatTuple numOutput result), h))
      | None \<Rightarrow>
          (case args of
             [obj] \<Rightarrow>
               (case PyArray_FROM_OTF obj h of
                  (None, h1) \<Rightarrow> Some (Inl (ValueError ''Input does not contain a valid array''), h1)
                | (Some arr, h1) \<Rightarrow>
                    if length (dims (h1 ! arr)) = 1 \<and> dims (h1 ! arr) ! 0 = enum_value numArgs
                    then
                      (case fnc (input_at numArgs (PyArray_GETPTR1 (h1 ! arr) 0)) of
                         Inl e \<Rightarrow> Some (caught e, h1)
                       | Inr result \<Rightarrow> Some (Inr (formatTuple numOutput result), h1))
                    else if length (dims (h1 ! arr)) = 2 \<and> dims (h1 ! arr) ! 1 = enum_value numArgs
                    then
                      (let numpt = int_of_npy_intp (dims (h1 ! arr) ! 0) in
                       case allocOutputArr numOutput uninit numpt h1 of
                         (resultObj, h2) \<Rightarrow>
                           (case fnc_loop numArgs numOutput fnc arr numpt resultObj 0 h2 of
                              None \<Rightarrow> None
                            | Some (Some e, h3) \<Rightarrow> Some (caught e, h3)
                            | Some (None, h3) \<Rightarrow>
                                Some (case resultObj of None \<Rightarrow> Inl NumPyError | Some v \<Rightarrow> Inr v, h3)))
                    else Some (Inl (ValueError (errStrInvalidArrayDim numArgs)), h1))
           | _ \<Rightarrow> Some (Inl (ValueError (errStrInvalidInput numArgs)), h)))"

subsection \<open>Notions used to state the properties\<close>

text \<open>The template arguments for which every specialisation the dispatcher uses exists.\<close>

definition specialised :: "INPUT_VALUE \<Rightarrow> OUTPUT_VALUE \<Rightarrow> bool" where
  "specialised numArgs numOutput =
     ((numArgs = INPUT_VALUE_TRIPLET \<or> numArgs = INPUT_VALUE_SEXTET) \<and>
      (numOutput = OUTPUT_VALUE_SINGLE \<or> numOutput = OUTPUT_VALUE_TRIPLET \<or>
       numOutput = OUTPUT_VALUE_TRIPLET_AND_SEXTET))"

text \<open>A Python float, and an object that is an array of the heap.\<close>

definition PyFloat :: "real \<Rightarrow> pyobj" where
  "PyFloat x = PyObj (Some x) (NewArray \<lparr>dims = [], cells = [x]\<rparr>)"

definition valid_object :: "heap \<Rightarrow> pyobj \<Rightarrow> bool" where
  "valid_object h obj = (case as_array obj of SameArray a \<Rightarrow> a < length h | _ \<Rightarrow> True)"

text \<open>The widest row an output buffer has, the arrays of a result, and what it is for a
  result to be the output buffers for \<open>n\<close> points.\<close>

fun rowWidth :: "OUTPUT_VALUE \<Rightarrow> nat" where
  "rowWidth OUTPUT_VALUE_SINGLE = 1"
| "rowWidth OUTPUT_VALUE_TRIPLET = 3"
| "rowWidth OUTPUT_VALUE_TRIPLET_AND_SEXTET = 6"

fun arrays_of :: "pyval \<Rightarrow> nat list" where
  "arrays_of (Float x) = []"
| "arrays_of (Array a) = [a]"
| "arrays_of (Tuple vs) = concat (map arrays_of vs)"

fun output_buffers :: "OUTPUT_VALUE \<Rightarrow> pyval \<Rightarrow> nat \<Rightarrow> heap \<Rightarrow> bool" where
  "output_buffers OUTPUT_VALUE_SINGLE (Array a) n h =
     (a < length h \<and> dims (h ! a) = [n] \<and> length (cells (h ! a)) = n)"
| "output_buffers OUTPUT_VALUE_TRIPLET (Array a) n h =
     (a < length h \<and> dims (h ! a) = [n, 3] \<and> length (cells (h ! a)) = n * 3)"
| "output_buffers OUTPUT_VALUE_TRIPLET_AND_SEXTET (Tuple [Array a1, Array a2]) n h =
     (a1 \<noteq> a2 \<and> a1 < length h \<and> a2 < length h \<and>
      dims (h ! a1) = [n, 3] \<and> length (cells (h ! a1)) = n * 3 \<and>
      dims (h ! a2) = [n, 6] \<and> length (cells (h ! a2)) = n * 6)"
| "output_buffers numOutput v n h = False"

text \<open>Row \<open>i\<close> of a batch result, in the form \<open>formatTuple\<close> gives a single result.\<close>

fun output_row :: "heap \<Rightarrow> pyval \<Rightarrow> nat \<Rightarrow> pyval" where
  "output_row h (Float x) i = Float x"
| "output_row h (Array a) i =
     (case dims (h ! a) of
        [n] \<Rightarrow> Float (cells (h ! a) ! i)
      | [n, w] \<Rightarrow> Tuple (map (\<lambda>d. Float (cells (h ! a) ! (i * w + d))) [0..<w])
      | _ \<Rightarrow> Tuple [])"
| "output_row h (Tuple vs) i = Tuple (map (\<lambda>v. output_row h v i) vs)"

text \<open>Row \<open>i\<close> of an input array of \<open>numArgs\<close> columns.\<close>

definition input_row :: "INPUT_VALUE \<Rightarrow> ndarray \<Rightarrow> nat \<Rightarrow> real list" where
  "input_row numArgs arr i = take (enum_value numArgs) (drop (i * enum_value numArgs) (cells arr))"

text \<open>The result for one point: the formatted result, or the error of the handler.\<close>

definition single_point :: "OUTPUT_VALUE \<Rightarrow> anyFunction \<Rightarrow> real list \<Rightarrow> py_error + pyval" where
  "single_point numOutput fnc p =
     (case fnc p of Inl e \<Rightarrow> caught e | Inr result \<Rightarrow> Inr (formatTuple numOutput result))"

text \<open>The points a call evaluates the function at, in order, as long as none raises.\<close>

definition evaluated_points :: "INPUT_VALUE \<Rightarrow> heap \<Rightarrow> pyobj list \<Rightarrow> real list list" where
  "evaluated_points numArgs h args =
     (case parseTuple numArgs args of
        Some input \<Rightarrow> [input_at numArgs input]
      | None \<Rightarrow>
          (case args of
             [obj] \<Rightarrow>
               (case PyArray_FROM_OTF obj h of
                  (None, h1) \<Rightarrow> []
                | (Some arr, h1) \<Rightarrow>
                    if length (dims (h1 ! arr)) = 1 \<and> dims (h1 ! arr) ! 0 = enum_value numArgs
                    then [input_at numArgs (PyArray_GETPTR1 (h1 ! arr) 0)]
                    else if length (dims (h1 ! arr)) = 2 \<and> dims (h1 ! arr) ! 1 = enum_value numArgs
                    then map (\<lambda>j. input_at numArgs (PyArray_GETPTR2 (h1 ! arr) (int j) 0))
                           [0..<nat (int_of_npy_intp (dims (h1 ! arr) ! 0))]
                    else [])
           | _ \<Rightarrow> []))"


section \<open>Properties of the particle arrays\<close>

lemma unat_succ: "(i :: 32 word) < n \<Longrightarrow> unat (i + 1) = Suc (unat i)"
proof -
  assume "i < n"
  then have "unat i < unat n" by (simp add: word_less_nat_alt)
  moreover have "unat n < 2 ^ 32" using unsigned_less [of n] by simp
  ultimately have "unat i + 1 < 2 ^ 32" by arith
  then show ?thesis by (simp add: unat_word_ariths)
qed

lemma conv_loop_eq:
  "unat i \<le> unat (sizeP src) \<Longrightarrow>
   conv_loop conv src i d =
     d @ map (\<lambda>e. (conv (fst e), snd e)) (take (unat (sizeP src) - unat i) (drop (unat i) (data src)))"
proof (induction conv src i d rule: conv_loop.induct)
  case (1 conv src i d)
  have le: "unat (sizeP src) \<le> length (data src)"
    by (simp add: sizeP_def unat_of_nat)
  show ?case
  proof (cases "i < sizeP src")
    case True
    then have lt: "unat i < unat (sizeP src)" by (simp add: word_less_nat_alt)
    have suc: "unat (i + 1) = Suc (unat i)" by (rule unat_succ [OF True])
    have ih: "conv_loop conv src (i + 1) (d @ [(conv (fst (data src ! unat i)), snd (data src ! unat i))]) =
        (d @ [(conv (fst (data src ! unat i)), snd (data src ! unat i))]) @
        map (\<lambda>e. (conv (fst e), snd e)) (take (unat (sizeP src) - unat (i + 1)) (drop (unat (i + 1)) (data src)))"
      using "1.IH" [OF True] lt suc by simp
    have len: "unat i < length (data src)" using lt le by arith
    have tk: "take (unat (sizeP src) - unat i) (drop (unat i) (data src)) =
        data src ! unat i # take (unat (sizeP src) - Suc (unat i)) (drop (Suc (unat i)) (data src))"
    proof -
      have "drop (unat i) (data src) = data src ! unat i # drop (Suc (unat i)) (data src)"
        using len by (simp add: Cons_nth_drop_Suc)
      moreover have "unat (sizeP src) - unat i = Suc (unat (sizeP src) - Suc (unat i))"
        using lt by arith
      ultimately show ?thesis by simp
    qed
    show ?thesis
      by (subst conv_loop.simps) (simp add: True ih suc tk)
  next
    case False
    then have "unat (sizeP src) \<le> unat i" by (simp add: word_less_nat_alt)
    then show ?thesis using False by (subst conv_loop.simps) simp
  qed
qed

text \<open>The constructor converts the first \<open>length mod 2 ^ 32\<close> elements of the source.\<close>

lemma PointMassArray_from_eq:
  "data (PointMassArray_from conv src) =
     map (\<lambda>e. (conv (fst e), snd e)) (take (length (data src) mod 2 ^ 32) (data src))"
  by (simp add: PointMassArray_from_def conv_loop_eq sizeP_def unat_of_nat)

subsection \<open>The loop of \<^verbatim>\<open>totalMass\<close>\<close>

text \<open>With fewer than \<open>2 ^ 32\<close> elements the loop adds the weights from left to right.\<close>

lemma totalMass_loop_eq:
  "length d < 2 ^ 32 \<Longrightarrow> unat i \<le> length d \<Longrightarrow>
   totalMass_loop d i acc = Some (foldl double_add acc (map snd (drop (unat i) d)))"
proof (induction "length d - unat i" arbitrary: i acc)
  case 0
  then have "\<not> unat i < length d" by simp
  then show ?case using 0 by (subst totalMass_loop.simps) simp
next
  case (Suc k)
  then have lt: "unat i < length d" by arith
  then have "unat i + 1 < 2 ^ 32" using Suc.prems by arith
  then have suc: "unat (i + 1) = Suc (unat i)" by (simp add: unat_word_ariths)
  have "totalMass_loop d (i + 1) (double_add acc (snd (d ! unat i))) =
      Some (foldl double_add (double_add acc (snd (d ! unat i))) (map snd (drop (unat (i + 1)) d)))"
    using Suc lt suc by (intro Suc.hyps(1)) simp_all
  moreover have "drop (unat i) d = d ! unat i # drop (Suc (unat i)) d"
    using lt by (simp add: Cons_nth_drop_Suc)
  ultimately show ?case using lt suc by (subst totalMass_loop.simps) simp
qed

text \<open>With \<open>2 ^ 32\<close> elements or more the counter never reaches the length: no result.\<close>

lemma totalMass_loop_returns:
  "totalMass_loop d i acc = Some y \<Longrightarrow> length d < 2 ^ 32"
proof (induction rule: totalMass_loop.raw_induct [rotated 1, consumes 1])
  case (1 f d i acc y)
  show ?case
  proof (cases "unat i < length d")
    case True
    with 1(2) have "f d (i + 1) (double_add acc (snd (d ! unat i))) = Some y" by simp
    then show ?thesis by (rule 1(1))
  next
    case False
    moreover have "unat i < 2 ^ 32" using unsigned_less [of i] by simp
    ultimately show ?thesis by arith
  qed
qed

subsection \<open>The addition of doubles\<close>

text \<open>The number of digits of \<open>m\<close> is \<open>k\<close> exactly when \<open>2 ^ (k - 1) \<le> m < 2 ^ k\<close>.\<close>

lemma bitlen_eq: "2 ^ k \<le> m \<Longrightarrow> m < 2 ^ Suc k \<Longrightarrow> bitlen m = Suc k"
proof (induction k arbitrary: m)
  case 0
  then have "m = 1" by simp
  then show ?case by (simp add: bitlen.simps)
next
  case (Suc k)
  then have "2 ^ k \<le> m div 2" and "m div 2 < 2 ^ Suc k" by simp_all
  then have "bitlen (m div 2) = Suc k" by (rule Suc.IH)
  moreover have "0 < (2 :: nat) ^ Suc k" by simp
  then have "m \<noteq> 0" using Suc.prems(1) by arith
  ultimately show ?case by (subst bitlen.simps) simp
qed

lemma bitlen_0: "bitlen 0 = 0"
  by (simp add: bitlen.simps)

lemma bitlen_less: "m < 2 ^ bitlen m"
proof (induction m rule: bitlen.induct)
  case (1 n)
  show ?case
  proof (cases "n = 0")
    case True
    then show ?thesis by simp
  next
    case False
    then have "n div 2 < 2 ^ bitlen (n div 2)" by (rule 1)
    then have "n < 2 * 2 ^ bitlen (n div 2)" by arith
    then show ?thesis using False by (subst bitlen.simps) simp
  qed
qed

lemma bitlen_ge: "0 < m \<Longrightarrow> 2 ^ (bitlen m - 1) \<le> m"
proof (induction m rule: bitlen.induct)
  case (1 n)
  show ?case
  proof (cases "n div 2 = 0")
    case True
    with 1(2) have "n = 1" by arith
    then show ?thesis using bitlen_eq [of 0 1] by simp
  next
    case False
    then have "2 ^ (bitlen (n div 2) - 1) \<le> n div 2" using 1 by simp
    moreover have "0 < bitlen (n div 2)" using False by (subst bitlen.simps) simp
    ultimately have "2 ^ bitlen (n div 2) \<le> 2 * (n div 2)"
      by (cases "bitlen (n div 2)") simp_all
    then have "2 ^ bitlen (n div 2) \<le> n" by arith
    then show ?thesis using 1(2) by (subst bitlen.simps) simp
  qed
qed

lemma bitlen_le: "m < 2 ^ k \<Longrightarrow> bitlen m \<le> k"
proof (rule ccontr)
  assume m: "m < 2 ^ k" and "\<not> bitlen m \<le> k"
  then have k: "k \<le> bitlen m - 1" and pos: "0 < bitlen m" by simp_all
  have "m \<noteq> 0"
  proof
    assume "m = 0"
    with pos show False by (simp add: bitlen_0)
  qed
  then have "2 ^ (bitlen m - 1) \<le> m" by (intro bitlen_ge) simp
  moreover have "(2 :: nat) ^ k \<le> 2 ^ (bitlen m - 1)" using k by (intro power_increasing) simp_all
  ultimately have "2 ^ k \<le> m" by (rule order_trans [rotated])
  then show False using m by simp
qed

lemma bitlen_double: "0 < m \<Longrightarrow> bitlen (2 * m) = Suc (bitlen m)"
  by (subst bitlen.simps) simp

lemma bitlen_shift: "0 < m \<Longrightarrow> bitlen (m * 2 ^ j) = bitlen m + j"
proof (induction j)
  case 0
  then show ?case by simp
next
  case (Suc j)
  have "bitlen (m * 2 ^ Suc j) = bitlen (2 * (m * 2 ^ j))" by (simp add: mult.commute mult.left_commute)
  also have "\<dots> = Suc (bitlen (m * 2 ^ j))" using Suc.prems by (intro bitlen_double) simp
  finally show ?case using Suc by simp
qed

text \<open>
  The sum of two doubles is a double: the significand and the exponent of the result are
  in the range of the format.
\<close>

lemma normalise_is_double:
  assumes "0 < m" and "m < 2 ^ 53" and "- 1074 \<le> e"
  shows "is_double (normalise s m e)"
proof -
  define j where "j = min (53 - bitlen m) (nat (e + 1074))"
  have bl: "bitlen m \<le> 53" using assms(2) by (rule bitlen_le)
  have "m * 2 ^ j < 2 ^ bitlen m * 2 ^ j" using bitlen_less [of m] by simp
  also have "\<dots> = 2 ^ (bitlen m + j)" by (simp add: power_add)
  also have "\<dots> \<le> 2 ^ 53" using bl by (intro power_increasing) (simp_all add: j_def)
  finally have a: "m * 2 ^ j < 2 ^ 53" .
  have b: "- 1074 \<le> e - int j" using assms(3) by (simp add: j_def)
  have d: "2 ^ 52 \<le> m * 2 ^ j \<or> e - int j = - 1074"
  proof (cases "j = nat (e + 1074)")
    case True
    then show ?thesis using assms(3) by simp
  next
    case False
    then have j: "j = 53 - bitlen m" by (simp add: j_def min_def split: if_splits)
    have "0 < bitlen m" using assms(1) by (subst bitlen.simps) simp
    then have "52 = (bitlen m - 1) + j" using bl j by simp
    then have "(2 :: nat) ^ 52 = 2 ^ (bitlen m - 1) * 2 ^ j" by (simp only: power_add)
    also have "\<dots> \<le> m * 2 ^ j" using bitlen_ge [OF assms(1)] by simp
    finally show ?thesis by simp
  qed
  show ?thesis using a b d by (simp add: normalise_def j_def [symmetric] Let_def)
qed

lemma round_double_is_double:
  assumes "0 < m" and "- 1074 \<le> e"
  shows "is_double (round_double s m e)"
proof -
  define k where "k = bitlen m - 53"
  define q where "q = m div 2 ^ k"
  define r where "r = m mod 2 ^ k"
  define q' where "q' = (if 2 ^ k < 2 * r \<or> (2 * r = 2 ^ k \<and> odd q) then q + 1 else q)"
  have "bitlen m \<le> 53 + k" by (simp add: k_def)
  then have "(2 :: nat) ^ bitlen m \<le> 2 ^ (53 + k)" by (intro power_increasing) simp_all
  then have "m < 2 ^ 53 * 2 ^ k" using bitlen_less [of m] by (simp add: power_add)
  then have q: "q < 2 ^ 53" by (simp add: q_def less_mult_imp_div_less)
  have qpos: "0 < q'"
  proof (cases "k = 0")
    case True
    then show ?thesis using assms(1) by (simp add: q'_def q_def)
  next
    case False
    then have "(2 :: nat) ^ k \<le> 2 ^ (bitlen m - 1)"
      by (intro power_increasing) (simp_all add: k_def)
    also have "\<dots> \<le> m" by (rule bitlen_ge [OF assms(1)])
    finally have "0 < q" by (simp add: q_def div_greater_zero_iff)
    then show ?thesis by (simp add: q'_def)
  qed
  have e: "- 1074 \<le> e + int k" "- 1074 \<le> e + int k + 1" using assms(2) by simp_all
  have rd: "round_double s m e =
      (if q' = 2 ^ 53 then normalise s (2 ^ 52) (e + int k + 1) else normalise s q' (e + int k))"
    by (simp add: round_double_def Let_def k_def q_def r_def q'_def)
  show ?thesis
  proof (cases "q' = 2 ^ 53")
    case True
    then show ?thesis using e by (simp add: rd normalise_is_double)
  next
    case False
    moreover have "q' \<le> 2 ^ 53" using q by (simp add: q'_def)
    ultimately have "q' < 2 ^ 53" by simp
    then show ?thesis using False qpos e by (simp add: rd normalise_is_double)
  qed
qed

lemma double_add_is_double:
  assumes "is_double x" and "is_double y"
  shows "is_double (double_add x y)"
proof (cases x)
  case (Finite s m e)
  note x = this
  show ?thesis
  proof (cases y)
    case (Finite t n f)
    have "- 1074 \<le> min e f" using assms x Finite by simp
    then show ?thesis by (simp add: x Finite Let_def round_double_is_double)
  qed (simp_all add: x)
next
  case (Infinity s)
  then show ?thesis by (cases y) simp_all
next
  case NaN
  then show ?thesis by simp
qed

lemma double_of_int_is_double: "is_double (double_of_int v)"
  by (simp add: double_of_int_def round_double_is_double)

text \<open>Adding a finite number other than zero to \<open>+0\<close> gives that number.\<close>

lemma with_sign_pos:
  "0 < m \<Longrightarrow> with_sign s m \<noteq> 0 \<and> (with_sign s m < 0) = s \<and> nat \<bar>with_sign s m\<bar> = m"
  by (simp add: with_sign_def)

lemma double_add_zero_left:
  assumes "is_double (Finite t n f)" and "0 < n"
  shows "double_add (Finite False 0 (- 1074)) (Finite t n f) = Finite t n f"
proof -
  define j where "j = nat (f + 1074)"
  from assms(1) have f: "- 1074 \<le> f" "f \<le> 971" and n: "n < 2 ^ 53"
    and c: "2 ^ 52 \<le> n \<or> f = - 1074" by simp_all
  have fj: "f = int j - 1074" using f by (simp add: j_def)
  have bl: "bitlen n \<le> 53" using n by (rule bitlen_le)
  have pos: "0 < n * 2 ^ j" using assms(2) by simp
  have sg: "with_sign t (n * 2 ^ j) \<noteq> 0" "(with_sign t (n * 2 ^ j) < 0) = t"
    "nat \<bar>with_sign t (n * 2 ^ j)\<bar> = n * 2 ^ j"
    using with_sign_pos [OF pos, of t] by simp_all
  have "nat (f - min (- 1074) f) = j" "min (- 1074) f = - 1074" using f by (simp_all add: j_def)
  then have add: "double_add (Finite False 0 (- 1074)) (Finite t n f) = round_double t (n * 2 ^ j) (- 1074)"
    using sg by (simp add: Let_def with_sign_def [of False])
  show ?thesis
  proof (cases "j = 0")
    case True
    then have "bitlen (n * 2 ^ j) - 53 = 0" using bl by simp
    then have "round_double t (n * 2 ^ j) (- 1074) = normalise t n (- 1074)"
      using n True by (simp add: round_double_def Let_def)
    then show ?thesis using add fj True by (simp add: normalise_def)
  next
    case False
    then have "f \<noteq> - 1074" using fj by simp
    with c have "2 ^ 52 \<le> n" by simp
    then have b53: "bitlen n = 53" using n bitlen_eq [of 52 n] by simp
    then have k: "bitlen (n * 2 ^ j) - 53 = j" using assms(2) by (simp add: bitlen_shift)
    have "round_double t (n * 2 ^ j) (- 1074) = normalise t n (- 1074 + int j)"
      using n False by (simp add: round_double_def Let_def k)
    then show ?thesis using add fj f b53 by (simp add: normalise_def)
  qed
qed

text \<open>
  When the exact sum of two finite doubles, as a multiple of the smaller unit in the last
  place, has at most 53 digits, nothing is rounded: the value of the sum is the sum of the
  values.
\<close>

lemma normalise_val:
  assumes "e - int (min (53 - bitlen m) (nat (e + 1074))) \<le> 971"
  shows "valof (normalise s m e) = real_of_int (with_sign s m) * 2 powi e"
proof -
  define j where "j = min (53 - bitlen m) (nat (e + 1074))"
  have "(2 :: real) powi (e - int j) = 2 powi e / 2 ^ j"
    by (simp add: power_int_diff)
  then have "real_of_int (with_sign s (m * 2 ^ j)) * 2 powi (e - int j) = real_of_int (with_sign s m) * 2 powi e"
    by (simp add: with_sign_def)
  then show ?thesis using assms by (simp add: normalise_def j_def [symmetric] Let_def)
qed

lemma powi_split: "g \<le> e \<Longrightarrow> (2 :: real) powi e = 2 ^ nat (e - g) * 2 powi g"
proof -
  assume le: "g \<le> e"
  have "(2 :: real) powi (int d + g) = 2 ^ d * 2 powi g" for d
    by (simp add: power_int_add)
  from this [of "nat (e - g)"] show ?thesis using le by simp
qed

lemma double_add_exact:
  assumes "e \<le> 971" and "f \<le> 971"
    and "\<bar>with_sign s (m * 2 ^ nat (e - min e f)) + with_sign t (n * 2 ^ nat (f - min e f))\<bar> < 2 ^ 53"
  shows "valof (double_add (Finite s m e) (Finite t n f)) =
         valof (Finite s m e) + valof (Finite t n f)"
proof -
  define g where "g = min e f"
  define v where "v = with_sign s (m * 2 ^ nat (e - g)) + with_sign t (n * 2 ^ nat (f - g))"
  have ge: "(2 :: real) powi e = 2 ^ nat (e - g) * 2 powi g"
    by (rule powi_split) (simp add: g_def)
  have gf: "(2 :: real) powi f = 2 ^ nat (f - g) * 2 powi g"
    by (rule powi_split) (simp add: g_def)
  have sum: "valof (Finite s m e) + valof (Finite t n f) = real_of_int v * 2 powi g"
    by (simp add: v_def ge gf with_sign_def algebra_simps)
  have add: "double_add (Finite s m e) (Finite t n f) =
      (if v = 0 then Finite (s \<and> t) 0 (- 1074) else round_double (v < 0) (nat \<bar>v\<bar>) g)"
    by (simp add: Let_def v_def g_def)
  show ?thesis
  proof (cases "v = 0")
    case True
    have "valof (double_add (Finite s m e) (Finite t n f)) = 0"
      unfolding add using True by (simp add: with_sign_def)
    also have "0 = real_of_int v * 2 powi g" by (simp add: True)
    finally show ?thesis by (simp only: sum)
  next
    case False
    define M where "M = nat \<bar>v\<bar>"
    have av: "\<bar>v\<bar> < 2 ^ 53" using assms(3) by (simp only: v_def g_def)
    have M: "0 < M" "M < 2 ^ 53" using False av by (simp_all add: M_def nat_less_iff)
    then have "bitlen M \<le> 53" by (intro bitlen_le)
    then have k: "bitlen M - 53 = 0" by simp
    have rd: "round_double (v < 0) M g = normalise (v < 0) M g"
      using M by (simp add: round_double_def Let_def k)
    have "g \<le> 971" using assms(1) by (simp add: g_def)
    then have "g - int (min (53 - bitlen M) (nat (g + 1074))) \<le> 971" by simp
    then have "valof (normalise (v < 0) M g) = real_of_int (with_sign (v < 0) M) * 2 powi g"
      by (rule normalise_val)
    moreover have "with_sign (v < 0) M = v" by (simp add: with_sign_def M_def)
    ultimately have "valof (double_add (Finite s m e) (Finite t n f)) = real_of_int v * 2 powi g"
      unfolding add using False by (simp add: rd M_def [symmetric])
    then show ?thesis by (simp only: sum)
  qed
qed

text \<open>
  In general the sum is rounded: when it is finite it differs from the exact sum by at most
  the fraction \<open>2 ^ - 53\<close> of the exact sum.
\<close>

lemma normalise_Finite_val:
  assumes "normalise s m e = Finite s' m' e'"
  shows "valof (Finite s' m' e') = real_of_int (with_sign s m) * 2 powi e"
proof -
  have "e - int (min (53 - bitlen m) (nat (e + 1074))) \<le> 971"
    using assms by (simp add: normalise_def Let_def split: if_splits)
  then have "valof (normalise s m e) = real_of_int (with_sign s m) * 2 powi e"
    by (rule normalise_val)
  then show ?thesis by (simp only: assms)
qed

lemma round_nat_error:
  fixes m k :: nat
  defines "q \<equiv> m div 2 ^ k" and "r \<equiv> m mod 2 ^ k"
  defines "q' \<equiv> (if 2 ^ k < 2 * r \<or> (2 * r = 2 ^ k \<and> odd q) then q + 1 else q)"
  shows "2 * \<bar>int (q' * 2 ^ k) - int m\<bar> \<le> 2 ^ k"
proof -
  have m: "m = q * 2 ^ k + r" unfolding q_def r_def by (rule div_mult_mod_eq [symmetric])
  have r: "r < 2 ^ k" by (simp add: r_def)
  show ?thesis
  proof (cases "2 ^ k < 2 * r \<or> (2 * r = 2 ^ k \<and> odd q)")
    case True
    then have q': "q' = q + 1" and h: "2 ^ k \<le> 2 * r" by (auto simp: q'_def)
    have "int (q' * 2 ^ k) - int m = int (2 ^ k) - int r"
      by (simp add: q' m algebra_simps)
    moreover have "0 \<le> int (2 ^ k) - int r" using r by simp
    moreover have "int (2 ^ k) \<le> int (2 * r)" using h by (simp only: of_nat_le_iff)
    then have "2 * (int (2 ^ k) - int r) \<le> int (2 ^ k)" by simp
    ultimately show ?thesis by simp
  next
    case False
    then have q': "q' = q" and h: "2 * r \<le> 2 ^ k" by (auto simp: q'_def)
    have "int (q' * 2 ^ k) - int m = - int r"
      by (simp add: q' m)
    moreover have "int (2 * r) \<le> int (2 ^ k)" using h by (simp only: of_nat_le_iff)
    ultimately show ?thesis by simp
  qed
qed


lemma with_sign_diff:
  "\<bar>real_of_int (with_sign s a) * x - real_of_int (with_sign s b) * x\<bar> =
   real_of_int \<bar>int a - int b\<bar> * \<bar>x\<bar>"
proof -
  have d: "\<bar>with_sign s a - with_sign s b\<bar> = \<bar>int a - int b\<bar>"
    by (simp add: with_sign_def abs_minus_commute)
  have "real_of_int (with_sign s a) * x - real_of_int (with_sign s b) * x =
      real_of_int (with_sign s a - with_sign s b) * x"
    by (simp add: algebra_simps)
  then have "\<bar>real_of_int (with_sign s a) * x - real_of_int (with_sign s b) * x\<bar> =
      \<bar>real_of_int (with_sign s a - with_sign s b)\<bar> * \<bar>x\<bar>"
    by (simp only: abs_mult)
  also have "\<bar>real_of_int (with_sign s a - with_sign s b)\<bar> =
      real_of_int \<bar>with_sign s a - with_sign s b\<bar>"
    by (simp only: of_int_abs)
  finally show ?thesis by (simp only: d)
qed

lemma round_double_error:
  assumes "0 < m" and "round_double s m e = Finite s' m' e'"
  shows "2 ^ 53 * \<bar>valof (Finite s' m' e') - real_of_int (with_sign s m) * 2 powi e\<bar> \<le>
         real m * 2 powi e"
proof -
  define k where "k = bitlen m - 53"
  define q where "q = m div 2 ^ k"
  define r where "r = m mod 2 ^ k"
  define q' where "q' = (if 2 ^ k < 2 * r \<or> (2 * r = 2 ^ k \<and> odd q) then q + 1 else q)"
  have rd: "round_double s m e =
      (if q' = 2 ^ 53 then normalise s (2 ^ 52) (e + int k + 1) else normalise s q' (e + int k))"
    by (simp add: round_double_def Let_def k_def q_def r_def q'_def)
  have p1: "(2 :: real) powi (e + int k + 1) = 2 * 2 ^ k * 2 powi e"
    by (simp add: power_int_add)
  have p0: "(2 :: real) powi (e + int k) = 2 ^ k * 2 powi e"
    by (simp add: power_int_add)
  have val: "valof (Finite s' m' e') = real_of_int (with_sign s (q' * 2 ^ k)) * 2 powi e"
  proof (cases "q' = 2 ^ 53")
    case True
    then have "normalise s (2 ^ 52) (e + int k + 1) = Finite s' m' e'" using assms(2) rd by simp
    then have "valof (Finite s' m' e') = real_of_int (with_sign s (2 ^ 52)) * 2 powi (e + int k + 1)"
      by (rule normalise_Finite_val)
    then show ?thesis by (simp add: True p1 with_sign_def)
  next
    case False
    then have "normalise s q' (e + int k) = Finite s' m' e'" using assms(2) rd by simp
    then have "valof (Finite s' m' e') = real_of_int (with_sign s q') * 2 powi (e + int k)"
      by (rule normalise_Finite_val)
    then show ?thesis by (simp add: p0 with_sign_def)
  qed
  have err: "2 * \<bar>int (q' * 2 ^ k) - int m\<bar> \<le> 2 ^ k"
    unfolding q'_def q_def r_def by (rule round_nat_error)
  have bound: "2 ^ 53 * \<bar>int (q' * 2 ^ k) - int m\<bar> \<le> int m"
  proof (cases "k = 0")
    case True
    then have "q' = m" by (simp add: q'_def q_def r_def)
    then show ?thesis using True by simp
  next
    case False
    then have "bitlen m - 1 = 52 + k" by (simp add: k_def)
    then have "2 ^ (52 + k) \<le> m" using bitlen_ge [OF assms(1)] by simp
    then have "int (2 ^ (52 + k)) \<le> int m" by (simp only: of_nat_le_iff)
    moreover have "2 ^ 53 * \<bar>int (q' * 2 ^ k) - int m\<bar> \<le> 2 ^ 52 * 2 ^ k"
      using err by simp
    ultimately show ?thesis by (simp add: power_add)
  qed
  have "\<bar>valof (Finite s' m' e') - real_of_int (with_sign s m) * 2 powi e\<bar> =
      real_of_int \<bar>int (q' * 2 ^ k) - int m\<bar> * 2 powi e"
    unfolding val by (simp add: with_sign_diff)
  moreover have "2 ^ 53 * real_of_int \<bar>int (q' * 2 ^ k) - int m\<bar> \<le> real m"
  proof -
    have "real_of_int (2 ^ 53 * \<bar>int (q' * 2 ^ k) - int m\<bar>) \<le> real_of_int (int m)"
      using bound by (simp only: of_int_le_iff)
    then show ?thesis by simp
  qed
  moreover have "0 \<le> (2 :: real) powi e" by simp
  ultimately show ?thesis
    by (simp add: mult.assoc [symmetric] mult_right_mono)
qed


lemma finite_sum_val:
  "valof (Finite s m e) + valof (Finite t n f) =
   real_of_int (with_sign s (m * 2 ^ nat (e - min e f)) + with_sign t (n * 2 ^ nat (f - min e f))) *
     2 powi min e f"
proof -
  have ge: "(2 :: real) powi e = 2 ^ nat (e - min e f) * 2 powi min e f"
    by (rule powi_split) simp
  have gf: "(2 :: real) powi f = 2 ^ nat (f - min e f) * 2 powi min e f"
    by (rule powi_split) simp
  have "valof (Finite s m e) = real_of_int (with_sign s (m * 2 ^ nat (e - min e f))) * 2 powi min e f"
    by (simp add: with_sign_def) (simp add: ge)
  moreover have "valof (Finite t n f) = real_of_int (with_sign t (n * 2 ^ nat (f - min e f))) * 2 powi min e f"
    by (simp add: with_sign_def) (simp add: gf)
  ultimately show ?thesis by (simp only: of_int_add distrib_right)
qed

lemma double_add_error:
  assumes "double_add (Finite s m e) (Finite t n f) = Finite s' m' e'"
  shows "2 ^ 53 * \<bar>valof (Finite s' m' e') - (valof (Finite s m e) + valof (Finite t n f))\<bar> \<le>
         \<bar>valof (Finite s m e) + valof (Finite t n f)\<bar>"
proof -
  define g where "g = min e f"
  define v where "v = with_sign s (m * 2 ^ nat (e - g)) + with_sign t (n * 2 ^ nat (f - g))"
  have sum: "valof (Finite s m e) + valof (Finite t n f) = real_of_int v * 2 powi g"
    unfolding v_def g_def by (rule finite_sum_val)
  have add: "double_add (Finite s m e) (Finite t n f) =
      (if v = 0 then Finite (s \<and> t) 0 (- 1074) else round_double (v < 0) (nat \<bar>v\<bar>) g)"
    by (simp add: Let_def v_def g_def)
  show ?thesis
  proof (cases "v = 0")
    case True
    then have "Finite s' m' e' = Finite (s \<and> t) 0 (- 1074)" using assms add by simp
    then have "valof (Finite s' m' e') = 0" by (simp add: with_sign_def)
    then show ?thesis by (simp only: sum True) simp
  next
    case False
    define M where "M = nat \<bar>v\<bar>"
    have M: "0 < M" using False by (simp add: M_def)
    have sg: "with_sign (v < 0) M = v" by (simp add: with_sign_def M_def)
    have aM: "real M = \<bar>real_of_int v\<bar>" by (simp add: M_def)
    have "round_double (v < 0) M g = Finite s' m' e'" using assms add False by (simp add: M_def)
    from round_double_error [OF M this]
    have "2 ^ 53 * \<bar>valof (Finite s' m' e') - real_of_int v * 2 powi g\<bar> \<le>
        \<bar>real_of_int v\<bar> * 2 powi g"
      by (simp only: sg aM)
    moreover have "\<bar>real_of_int v * 2 powi g\<bar> = \<bar>real_of_int v\<bar> * 2 powi g"
      by (simp add: abs_mult)
    ultimately show ?thesis by (simp only: sum)
  qed
qed

text \<open>
  Adding a list of weights from left to right: as long as no running sum overflows, the
  result differs from the exact sum by at most \<open>(1 + 2 ^ - 53) ^ n - 1\<close> times the sum of
  the magnitudes, for \<open>n\<close> weights.
\<close>

lemma finite_sums_acc: "finite_sums acc ws \<Longrightarrow> is_finite acc"
  by (cases ws) simp_all

lemma double_add_error_finite:
  assumes "is_finite x" and "is_finite y" and "is_finite (double_add x y)"
  shows "\<bar>valof (double_add x y) - (valof x + valof y)\<bar> \<le> \<bar>valof x + valof y\<bar> / 2 ^ 53"
proof -
  from assms obtain s m e t n f s' m' e' where
    x: "x = Finite s m e" and y: "y = Finite t n f" and r: "double_add x y = Finite s' m' e'"
    by (cases x; cases y; cases "double_add x y") simp_all
  from r have r': "double_add (Finite s m e) (Finite t n f) = Finite s' m' e'" by (simp only: x y)
  from double_add_error [OF r']
  have "2 ^ 53 * \<bar>valof (double_add x y) - (valof x + valof y)\<bar> \<le> \<bar>valof x + valof y\<bar>"
    by (simp only: x y r')
  then show ?thesis by (simp add: field_simps)
qed

lemma foldl_double_add_error:
  "finite_sums acc ws \<Longrightarrow>
   \<bar>valof (foldl double_add acc ws) - (valof acc + sum_list (map valof ws))\<bar> \<le>
     ((1 + 1 / 2 ^ 53) ^ length ws - 1) * (\<bar>valof acc\<bar> + sum_list (map (\<lambda>w. \<bar>valof w\<bar>) ws))"
proof (induction ws arbitrary: acc)
  case Nil
  then show ?case by simp
next
  case (Cons w ws)
  define u :: real where "u = 1 / 2 ^ 53"
  define U :: real where "U = 1 + u"
  define n where "n = length ws"
  define a where "a = valof acc"
  define b where "b = valof w"
  define a' where "a' = valof (double_add acc w)"
  define F where "F = valof (foldl double_add (double_add acc w) ws)"
  define S where "S = sum_list (map valof ws)"
  define A where "A = sum_list (map (\<lambda>w. \<bar>valof w\<bar>) ws)"
  define B where "B = \<bar>a\<bar> + \<bar>b\<bar>"
  have u0: "0 \<le> u" and U1: "1 \<le> U" by (simp_all add: u_def U_def)
  have Un: "1 \<le> U ^ n" using U1 by (rule one_le_power)
  have A0: "0 \<le> A" unfolding A_def by (rule sum_list_nonneg) auto
  from Cons.prems have fin: "is_finite acc" "is_finite w" "finite_sums (double_add acc w) ws"
    by simp_all
  have fin': "is_finite (double_add acc w)" using fin(3) by (rule finite_sums_acc)
  have step: "\<bar>a' - (a + b)\<bar> \<le> u * \<bar>a + b\<bar>"
    using double_add_error_finite [OF fin(1,2) fin'] by (simp add: a'_def a_def b_def u_def)
  have xB: "\<bar>a + b\<bar> \<le> B" by (simp add: B_def)
  have B0: "0 \<le> B" by (simp add: B_def)
  have e1: "\<bar>a' - (a + b)\<bar> \<le> u * B"
    using step xB u0 by (meson mult_left_mono order_trans)
  have "\<bar>a'\<bar> \<le> \<bar>a + b\<bar> + \<bar>a' - (a + b)\<bar>" by simp
  then have a'B: "\<bar>a'\<bar> \<le> U * B" using e1 xB by (simp add: U_def algebra_simps)
  have ih: "\<bar>F - (a' + S)\<bar> \<le> (U ^ n - 1) * (\<bar>a'\<bar> + A)"
    using Cons.IH [OF fin(3)] by (simp add: F_def a'_def S_def A_def U_def u_def n_def)
  have c0: "0 \<le> U ^ n - 1" using Un by simp
  have "(U ^ n - 1) * (\<bar>a'\<bar> + A) \<le> (U ^ n - 1) * (U * B + A)"
    using a'B c0 by (intro mult_left_mono) simp_all
  with ih have ih': "\<bar>F - (a' + S)\<bar> \<le> (U ^ n - 1) * (U * B + A)" by simp
  have "\<bar>F - (a + b + S)\<bar> \<le> \<bar>F - (a' + S)\<bar> + \<bar>a' - (a + b)\<bar>" by simp
  then have "\<bar>F - (a + b + S)\<bar> \<le> (U ^ n - 1) * (U * B + A) + u * B"
    using ih' e1 by simp
  also have "(U ^ n - 1) * (U * B + A) + u * B = (U ^ Suc n - 1) * B + (U ^ n - 1) * A"
    by (simp add: U_def algebra_simps)
  also have "\<dots> \<le> (U ^ Suc n - 1) * B + (U ^ Suc n - 1) * A"
  proof -
    have "U ^ n \<le> U ^ Suc n" using U1 by (intro power_increasing) simp_all
    then have "(U ^ n - 1) * A \<le> (U ^ Suc n - 1) * A" using A0 by (intro mult_right_mono) simp_all
    then show ?thesis by simp
  qed
  finally have "\<bar>F - (a + b + S)\<bar> \<le> (U ^ Suc n - 1) * (B + A)" by (simp add: algebra_simps)
  then show ?case
    by (simp add: F_def a_def b_def S_def A_def B_def U_def u_def n_def algebra_simps)
qed

text \<open>
  Some sums: \<open>2 ^ 53 + 1\<close> lies half way between two doubles and is rounded to the even
  one, \<open>2 ^ 53\<close>; the largest finite double added to itself is an infinity.
\<close>

lemma double_of_int_0: "double_of_int 0 = Finite False 0 (- 1074)"
  by (simp add: double_of_int_def)

lemma double_of_int_1: "double_of_int 1 = Finite False 4503599627370496 (- 52)"
proof -
  have "bitlen 1 = 1" using bitlen_eq [of 0 1] by simp
  then show ?thesis by (simp add: double_of_int_def round_double_def normalise_def)
qed

lemma double_of_int_2_53: "double_of_int 9007199254740992 = Finite False 4503599627370496 1"
proof -
  have "bitlen 9007199254740992 = 54" "bitlen 4503599627370496 = 53"
    using bitlen_eq [of 53 9007199254740992] bitlen_eq [of 52 4503599627370496] by simp_all
  then show ?thesis by (simp add: double_of_int_def round_double_def normalise_def)
qed

lemma double_of_int_neg_2_53: "double_of_int (- 9007199254740992) = Finite True 4503599627370496 1"
proof -
  have "bitlen 9007199254740992 = 54" "bitlen 4503599627370496 = 53"
    using bitlen_eq [of 53 9007199254740992] bitlen_eq [of 52 4503599627370496] by simp_all
  then show ?thesis by (simp add: double_of_int_def round_double_def normalise_def)
qed

lemma double_add_2_53_1:
  "double_add (Finite False 4503599627370496 1) (Finite False 4503599627370496 (- 52)) = (Finite False 4503599627370496 1)"
proof -
  have b0: "bitlen 4503599627370496 = 53"
    using bitlen_eq [of 52 4503599627370496] by simp
  have b1: "bitlen 40564819207303345351494129942528 = 106"
    using bitlen_eq [of 105 40564819207303345351494129942528] by simp
  show ?thesis
    by (simp add: round_double_def normalise_def with_sign_def b0 b1)
qed

lemma double_add_1_2_53:
  "double_add (Finite False 4503599627370496 (- 52)) (Finite False 4503599627370496 1) = (Finite False 4503599627370496 1)"
proof -
  have b0: "bitlen 4503599627370496 = 53"
    using bitlen_eq [of 52 4503599627370496] by simp
  have b1: "bitlen 40564819207303345351494129942528 = 106"
    using bitlen_eq [of 105 40564819207303345351494129942528] by simp
  show ?thesis
    by (simp add: round_double_def normalise_def with_sign_def b0 b1)
qed

lemma double_add_2_53_neg:
  "double_add (Finite False 4503599627370496 1) (Finite True 4503599627370496 1) = (Finite False 0 (- 1074))"
  by (simp add: with_sign_def)

lemma double_add_max_max:
  "double_add (Finite False 9007199254740991 971) (Finite False 9007199254740991 971) = (Infinity False)"
proof -
  have b0: "bitlen 9007199254740991 = 53"
    using bitlen_eq [of 52 9007199254740991] by simp
  have b1: "bitlen 18014398509481982 = 54"
    using bitlen_eq [of 53 18014398509481982] by simp
  show ?thesis
    by (simp add: round_double_def normalise_def with_sign_def b0 b1)
qed

subsection \<open>The claims about the particle arrays\<close>

text \<open>
  Claim C2 says that \<open>add\<close> with a negative weight fails with InvalidArgument and leaves
  the collection unchanged. The source appends without looking at the weight: adding
  weight \<open>-1\<close> to the empty collection gives a collection of one element.
\<close>

theorem add_negative_counterexample:
  "data (add \<lparr>data = []\<rparr> (0 :: real, 0 :: real, 0 :: real) (- 1 :: real)) = [((0, 0, 0), - 1)] \<and>
   add \<lparr>data = []\<rparr> (0 :: real, 0 :: real, 0 :: real) (- 1 :: real) \<noteq> \<lparr>data = []\<rparr>"
  by (simp add: add_def)

text \<open>
  Claim C2 as amended: for every collection and every negative weight \<open>w\<close>, \<open>add\<close> does not
  fail; it appends the pair of the entity and \<open>w\<close> at the end, so the number of elements
  grows by one and the elements that were there stay, in their order.
\<close>

theorem add_negative_appends:
  assumes "w < 0"
  shows "data (add p e w) = data p @ [(e, w)] \<and>
         length (data (add p e w)) = Suc (length (data p)) \<and>
         take (length (data p)) (data (add p e w)) = data p"
  by (simp add: add_def)

theorem add_negative_appends_witness:
  "(- 2 :: real) < 0 \<and>
   data (add \<lparr>data = [((1 :: real, 2 :: real, 3 :: real), 5 :: real)]\<rparr> (4, 5, 6) (- 2)) =
     [((1, 2, 3), 5), ((4, 5, 6), - 2)]"
  using add_negative_appends [of "- 2 :: real" "\<lparr>data = [((1 :: real, 2 :: real, 3 :: real), 5 :: real)]\<rparr>" "(4, 5, 6)"]
  by simp

text \<open>
  The same holds whatever the weight is, of whatever type (a NaN, an infinity or a negative
  double among them): \<open>add\<close> has no error result.
\<close>

lemma add_appends:
  "data (add p e w) = data p @ [(e, w)]"
  by (simp add: add_def)

text \<open>
  Claim C4 says that the conversion constructor yields exactly K elements for every source
  of K elements. The loop is bounded by the 32-bit \<open>size()\<close>: a source of \<open>2 ^ 32\<close>
  elements has size 0 and the new collection is empty.
\<close>

theorem PointMassArray_from_counterexample:
  "length (data \<lparr>data = replicate (2 ^ 32) ((0 :: real, 0 :: real, 0 :: real), 1 :: real)\<rparr>) = 4294967296 \<and>
   data (PointMassArray_from (\<lambda>p. fst p)
     \<lparr>data = replicate (2 ^ 32) ((0 :: real, 0 :: real, 0 :: real), 1 :: real)\<rparr>) = []"
  by (simp add: PointMassArray_from_eq)

text \<open>
  Claim C4 as amended: for every conversion \<open>conv\<close> (so for each of the three \<open>Converter\<close>
  specialisations) and every source of K elements with \<open>K < 2 ^ 32\<close>, the constructor
  yields K elements in the order of the source; element \<open>i\<close> is the converted entity of
  source element \<open>i\<close> with the weight of source element \<open>i\<close>, so the weights (and their sum)
  are those of the source.
\<close>

theorem PointMassArray_from_converts:
  assumes "length (data src) < 2 ^ 32"
  shows "length (data (PointMassArray_from conv src)) = length (data src) \<and>
         (\<forall>i < length (data src).
            data (PointMassArray_from conv src) ! i = (conv (fst (data src ! i)), snd (data src ! i))) \<and>
         map snd (data (PointMassArray_from conv src)) = map snd (data src) \<and>
         sum_list (map snd (data (PointMassArray_from conv src))) = sum_list (map snd (data src))"
proof -
  have "data (PointMassArray_from conv src) = map (\<lambda>e. (conv (fst e), snd e)) (data src)"
    using assms by (simp add: PointMassArray_from_eq)
  then show ?thesis by (simp add: comp_def)
qed

theorem PointMassArray_from_converts_witness:
  "length (data (PointMassArray_from (\<lambda>p. fst p) \<lparr>data = [((1 :: real, 2 :: real), 5 :: real), ((3, 4), 7)]\<rparr>)) = 2 \<and>
   data (PointMassArray_from (\<lambda>p. fst p) \<lparr>data = [((1 :: real, 2 :: real), 5 :: real), ((3, 4), 7)]\<rparr>) ! 0 = (1, 5) \<and>
   data (PointMassArray_from (\<lambda>p. fst p) \<lparr>data = [((1 :: real, 2 :: real), 5 :: real), ((3, 4), 7)]\<rparr>) ! 1 = (3, 7)"
proof -
  let ?src = "\<lparr>data = [((1 :: real, 2 :: real), 5 :: real), ((3, 4), 7)]\<rparr>"
  have len: "length (data ?src) < 2 ^ 32" by simp
  note th = PointMassArray_from_converts [OF len, of "\<lambda>p. fst p"]
  have "length (data (PointMassArray_from (\<lambda>p. fst p) ?src)) = 2"
    using th by simp
  moreover have "data (PointMassArray_from (\<lambda>p. fst p) ?src) ! 0 = (1, 5)"
    using th [THEN conjunct2, THEN conjunct1, rule_format, of 0] by simp
  moreover have "data (PointMassArray_from (\<lambda>p. fst p) ?src) ! 1 = (3, 7)"
    using th [THEN conjunct2, THEN conjunct1, rule_format, of 1] by simp
  ultimately show ?thesis by simp
qed

text \<open>
  The same holds with weights of the type \<open>double\<close>, and then the total mass of the new
  collection is the total mass of the source.
\<close>

lemma PointMassArray_from_totalMass:
  assumes "length (data src) < 2 ^ 32"
  shows "totalMass (PointMassArray_from conv src) = totalMass src"
proof -
  have "data (PointMassArray_from conv src) = map (\<lambda>e. (conv (fst e), snd e)) (data src)"
    using assms by (simp add: PointMassArray_from_eq)
  then show ?thesis
    using assms totalMass_loop_eq [of "data src" 0 "double_of_int 0"]
      totalMass_loop_eq [of "data (PointMassArray_from conv src)" 0 "double_of_int 0"]
    by (simp add: totalMass_def comp_def)
qed

text \<open>
  The table of \<open>Converter\<close> specialisations has a strategy for position+velocity to
  position+velocity, for position+velocity to position and for position to position, each
  for every pair of coordinate systems, and none for position to position+velocity: that
  pair selects the primary template. These are all the pairs, since a particle type is one
  of the two kinds.
\<close>

lemma Converter_table:
  "Converter (PosVelT s) (PosVelT d) = Some (toPosVel s d) \<and>
   Converter (PosVelT s) (PosT d) = Some (toPos s d) \<and>
   Converter (PosT s) (PosT d) = Some (toPos s d) \<and>
   Converter (PosT s) (PosVelT d) = None \<and>
   (Converter SrcT DestT = None) = (\<exists>a b. SrcT = PosT a \<and> DestT = PosVelT b)"
  by (cases SrcT; cases DestT) simp_all

text \<open>
  Claim C8 says that \<open>totalMass\<close> returns the sum of the weights for every collection. With
  \<open>2 ^ 32\<close> elements the 32-bit counter wraps around to 0 before it reaches the length of
  the vector, and the function does not return.
\<close>

theorem totalMass_wraps:
  "totalMass \<lparr>data = replicate (2 ^ 32) ((0 :: real, 0 :: real, 0 :: real), double_of_int 1)\<rparr> = None"
proof (cases "totalMass \<lparr>data = replicate (2 ^ 32) ((0 :: real, 0 :: real, 0 :: real), double_of_int 1)\<rparr>")
  case None
  then show ?thesis .
next
  case (Some y)
  then have "length (replicate (2 ^ 32) ((0 :: real, 0 :: real, 0 :: real), double_of_int 1)) < 2 ^ 32"
    unfolding totalMass_def by (auto dest: totalMass_loop_returns)
  then show ?thesis by simp
qed

text \<open>
  For a collection of fewer than \<open>2 ^ 32\<close> elements \<open>totalMass\<close> returns the weights added in
  the order of the elements, starting from \<open>+0\<close>, each addition rounded; for the empty
  collection it returns \<open>+0\<close>. It returns for no other collection.
\<close>

lemma totalMass_sum:
  assumes "length (data p) < 2 ^ 32"
  shows "totalMass p = Some (foldl double_add (double_of_int 0) (map snd (data p))) \<and>
         totalMass (p\<lparr>data := []\<rparr>) = Some (double_of_int 0)"
  using assms totalMass_loop_eq [of "data p" 0 "double_of_int 0"]
    totalMass_loop_eq [of "[]" 0 "double_of_int 0"]
  by (simp add: totalMass_def)

lemma totalMass_returns_iff:
  "(\<exists>y. totalMass p = Some y) = (length (data p) < 2 ^ 32)"
  using totalMass_sum [of p] totalMass_loop_returns [of "data p" 0 "double_of_int 0"]
  by (auto simp: totalMass_def)

lemma foldl_double_add_is_double:
  "is_double acc \<Longrightarrow> \<forall>w \<in> set ws. is_double w \<Longrightarrow> is_double (foldl double_add acc ws)"
  by (induction ws arbitrary: acc) (simp_all add: double_add_is_double)

lemma totalMass_is_double:
  assumes "totalMass p = Some y" and "\<forall>e \<in> set (data p). is_double (snd e)"
  shows "is_double y"
proof -
  from assms(1) have "length (data p) < 2 ^ 32"
    unfolding totalMass_def by (rule totalMass_loop_returns)
  then have "y = foldl double_add (double_of_int 0) (map snd (data p))"
    using totalMass_sum [of p] assms(1) by simp
  then show ?thesis using assms(2) by (simp add: foldl_double_add_is_double double_of_int_is_double)
qed

text \<open>
  The total is the sum of the weights up to rounding: when no weight and no running sum is
  an infinity or a NaN, it differs from the exact sum of the \<open>n\<close> weights by at most
  \<open>(1 + 2 ^ - 53) ^ n - 1\<close> times the sum of their magnitudes.
\<close>

lemma totalMass_sum_error:
  assumes "length (data p) < 2 ^ 32"
    and "finite_sums (double_of_int 0) (map snd (data p))"
  shows "\<exists>y. totalMass p = Some y \<and>
           \<bar>valof y - sum_list (map (\<lambda>e. valof (snd e)) (data p))\<bar> \<le>
             ((1 + 1 / 2 ^ 53) ^ length (data p) - 1) *
               sum_list (map (\<lambda>e. \<bar>valof (snd e)\<bar>) (data p))"
proof -
  have y: "totalMass p = Some (foldl double_add (double_of_int 0) (map snd (data p)))"
    using totalMass_sum [OF assms(1)] by simp
  have z: "valof (double_of_int 0) = 0" by (simp add: double_of_int_0 with_sign_def)
  from foldl_double_add_error [OF assms(2)] show ?thesis
    by (simp add: y z comp_def)
qed

text \<open>
  The sum is the sum of doubles: it is rounded (the total of the weights \<open>2 ^ 53\<close> and 1 is
  \<open>2 ^ 53\<close>), it depends on the order of the elements, and it can be an infinity or a NaN.
\<close>

lemma totalMass_rounds:
  "totalMass \<lparr>data = [(a, double_of_int 9007199254740992), (b, double_of_int 1)]\<rparr> =
     Some (double_of_int 9007199254740992)"
proof -
  have "double_add (Finite False 0 (- 1074)) (Finite False 4503599627370496 1) =
      Finite False 4503599627370496 1"
    by (rule double_add_zero_left) simp_all
  then show ?thesis
    using totalMass_sum [of "\<lparr>data = [(a, double_of_int 9007199254740992), (b, double_of_int 1)]\<rparr>"]
    by (simp add: double_of_int_0 double_of_int_1 double_of_int_2_53 double_add_2_53_1
        del: double_add.simps)
qed

lemma totalMass_order:
  "totalMass \<lparr>data = [(a, double_of_int 1), (b, double_of_int 9007199254740992),
      (c, double_of_int (- 9007199254740992))]\<rparr> = Some (double_of_int 0) \<and>
   totalMass \<lparr>data = [(b, double_of_int 9007199254740992),
      (c, double_of_int (- 9007199254740992)), (a, double_of_int 1)]\<rparr> = Some (double_of_int 1)"
proof -
  have z1: "double_add (Finite False 0 (- 1074)) (Finite False 4503599627370496 (- 52)) =
      Finite False 4503599627370496 (- 52)"
    by (rule double_add_zero_left) simp_all
  have z2: "double_add (Finite False 0 (- 1074)) (Finite False 4503599627370496 1) =
      Finite False 4503599627370496 1"
    by (rule double_add_zero_left) simp_all
  show ?thesis
    using totalMass_sum [of "\<lparr>data = [(a, double_of_int 1), (b, double_of_int 9007199254740992),
        (c, double_of_int (- 9007199254740992))]\<rparr>"]
      totalMass_sum [of "\<lparr>data = [(b, double_of_int 9007199254740992),
        (c, double_of_int (- 9007199254740992)), (a, double_of_int 1)]\<rparr>"]
    by (simp add: double_of_int_0 double_of_int_1 double_of_int_2_53 double_of_int_neg_2_53
        z1 z2 double_add_1_2_53 double_add_2_53_neg del: double_add.simps)
qed

lemma totalMass_overflow:
  "totalMass \<lparr>data = [(a, Finite False 9007199254740991 971), (b, Finite False 9007199254740991 971)]\<rparr> =
     Some (Infinity False) \<and>
   totalMass \<lparr>data = [(a, Infinity False), (b, Infinity True)]\<rparr> = Some NaN"
proof -
  have z: "double_add (Finite False 0 (- 1074)) (Finite False 9007199254740991 971) =
      Finite False 9007199254740991 971"
    by (rule double_add_zero_left) simp_all
  have i: "double_add (double_add (Finite False 0 (- 1074)) (Infinity False)) (Infinity True) = NaN"
    by simp
  show ?thesis
    using totalMass_sum [of "\<lparr>data = [(a, Finite False 9007199254740991 971),
        (b, Finite False 9007199254740991 971)]\<rparr>"]
      totalMass_sum [of "\<lparr>data = [(a, Infinity False), (b, Infinity True)]\<rparr>"]
    by (simp add: double_of_int_0 z i double_add_max_max del: double_add.simps)
qed

section \<open>Properties of the dispatcher\<close>

subsection \<open>Integers, stores and rows\<close>

lemma int_of_npy_intp_small: "n < 2 ^ 31 \<Longrightarrow> int_of_npy_intp n = int n"
  by (simp add: int_of_npy_intp_def Let_def)

lemma int_arith_Some: "- (2 ^ 31) \<le> v \<Longrightarrow> v \<le> 2 ^ 31 - 1 \<Longrightarrow> int_arith v = Some v"
  by (simp add: int_arith_def)

lemma int_arith_index:
  "0 \<le> p \<Longrightarrow> p + w \<le> 2 ^ 31 \<Longrightarrow> 0 \<le> d \<Longrightarrow> d < w \<Longrightarrow>
   int_arith p = Some p \<and> int_arith (p + d) = Some (p + d)"
  by (simp add: int_arith_def)

lemma store_Some:
  "a < length h \<Longrightarrow> j < length (cells (h ! a)) \<Longrightarrow>
   store a (int j) v h = Some (h[a := (h ! a)\<lparr>cells := (cells (h ! a))[j := v]\<rparr>])"
  by (simp add: store_def)

lemma store_frame:
  "store a j v h = Some h' \<Longrightarrow> length h' = length h \<and> (\<forall>b. b \<noteq> a \<longrightarrow> h' ! b = h ! b)"
  by (auto simp: store_def split: if_splits)

lemma write_row_frame:
  "write_row a index w result off ds h = Some h' \<Longrightarrow>
   length h' = length h \<and> (\<forall>b. b \<noteq> a \<longrightarrow> h' ! b = h ! b)"
proof (induction ds arbitrary: h)
  case Nil
  then show ?case by simp
next
  case (Cons d ds)
  from Cons.prems obtain m j h1 where
    st: "store a j (result ! (d + off)) h = Some h1" and
    rest: "write_row a index w result off ds h1 = Some h'"
    by (auto split: option.splits)
  from store_frame [OF st] Cons.IH [OF rest] show ?case by simp
qed

lemma write_row_Some:
  assumes "a < length h"
    and "int i * int w + int w \<le> 2 ^ 31"
    and "i * w + w \<le> length (cells (h ! a))"
    and "\<forall>d \<in> set ds. d < w"
  shows "write_row a (int i) (int w) result off ds h =
     Some (h[a := (h ! a)\<lparr>cells := fold (\<lambda>d c. c[i * w + d := result ! (d + off)]) ds (cells (h ! a))\<rparr>])"
  using assms
proof (induction ds arbitrary: h)
  case Nil
  then show ?case by simp
next
  case (Cons d ds)
  have dw: "d < w" using Cons.prems(4) by simp
  have nn: "0 \<le> int i * int w" by simp
  have dw': "int d < int w" using dw by simp
  have d0: "0 \<le> int d" by simp
  note ar = int_arith_index [OF nn Cons.prems(2) d0 dw']
  have m: "int_arith (int i * int w) = Some (int i * int w)"
    using ar by blast
  have j: "int_arith (int i * int w + int d) = Some (int i * int w + int d)"
    using ar by blast
  have lt: "i * w + d < length (cells (h ! a))" using Cons.prems(3) dw by arith
  let ?h1 = "h[a := (h ! a)\<lparr>cells := (cells (h ! a))[i * w + d := result ! (d + off)]\<rparr>]"
  have st: "store a (int i * int w + int d) (result ! (d + off)) h = Some ?h1"
    using store_Some [OF Cons.prems(1) lt, of "result ! (d + off)"] by simp
  have ih: "write_row a (int i) (int w) result off ds ?h1 =
     Some (?h1[a := (?h1 ! a)\<lparr>cells := fold (\<lambda>d c. c[i * w + d := result ! (d + off)]) ds (cells (?h1 ! a))\<rparr>])"
    using Cons.prems by (intro Cons.IH) simp_all
  show ?case using Cons.prems(1) by (simp add: m j st ih)
qed

lemma length_fold_update: "length (fold (\<lambda>d c. c[g d := f d]) ds c) = length c"
  by (induction ds arbitrary: c) simp_all

lemma fold_update_nth:
  "k < length c \<Longrightarrow>
   fold (\<lambda>d c. c[p + d := f d]) ds c ! k = (if \<exists>d \<in> set ds. k = p + d then f (k - p) else c ! k)"
proof (induction ds arbitrary: c)
  case Nil
  then show ?case by simp
next
  case (Cons d ds)
  have "k < length (c[p + d := f d])" using Cons.prems by simp
  from Cons.IH [OF this] show ?case using Cons.prems by (auto simp: nth_list_update)
qed

lemma row_index_eq:
  assumes "d < w" and "d' < w"
  shows "(j * w + d = i * w + d') = (j = i \<and> d = (d' :: nat))"
proof
  assume eq: "j * w + d = i * w + d'"
  have "(j * w + d) div w = j" and "(i * w + d') div w = i" using assms by simp_all
  with eq have "j = i" by simp
  with eq show "j = i \<and> d = d'" by simp
qed simp

lemma fold_update_row:
  assumes "j * w + w \<le> length c"
  shows "map (\<lambda>d. g (fold (\<lambda>d c. c[i * w + d := f d]) [0..<w] c ! (j * w + d))) [0..<w] =
     (if j = i then map (\<lambda>d. g (f d)) [0..<w] else map (\<lambda>d. g (c ! (j * w + d))) [0..<w])"
proof -
  have "fold (\<lambda>d c. c[i * w + d := f d]) [0..<w] c ! (j * w + d) = (if j = i then f d else c ! (j * w + d))"
    if "d < w" for d
  proof -
    have "j * w + d < length c" using assms that by arith
    moreover have "(\<exists>d' \<in> set [0..<w]. j * w + d = i * w + d') = (j = i)"
      using that by (auto simp: row_index_eq)
    ultimately show ?thesis by (simp add: fold_update_nth)
  qed
  then show ?thesis by (cases "j = i") simp_all
qed

lemma upt_0_3: "[0..<3] = [0, 1, 2]"
  by code_simp

lemma upt_0_6: "[0..<6] = [0, 1, 2, 3, 4, 5]"
  by code_simp

lemma formatTuple_TRIPLET_map:
  "formatTuple OUTPUT_VALUE_TRIPLET r = Tuple (map (\<lambda>d. Float (r ! d)) [0..<3])"
  by (simp add: upt_0_3 upt_0_6)

lemma formatTuple_TRIPLET_AND_SEXTET_map:
  "formatTuple OUTPUT_VALUE_TRIPLET_AND_SEXTET r =
     Tuple [Tuple (map (\<lambda>d. Float (r ! d)) [0..<3]), Tuple (map (\<lambda>d. Float (r ! (d + 3))) [0..<6])]"
  by (simp add: upt_0_3 upt_0_6)

lemma formatOutputArr_SINGLE:
  assumes "output_buffers OUTPUT_VALUE_SINGLE v n h" and "i < n"
  shows "\<exists>h'. formatOutputArr OUTPUT_VALUE_SINGLE result (int i) (Some v) h = Some h' \<and>
           output_buffers OUTPUT_VALUE_SINGLE v n h' \<and> length h' = length h \<and>
           (\<forall>b. b \<notin> set (arrays_of v) \<longrightarrow> h' ! b = h ! b) \<and>
           (\<forall>j < n. output_row h' v j =
              (if j = i then formatTuple OUTPUT_VALUE_SINGLE result else output_row h v j))"
proof -
  from assms(1) obtain a where v: "v = Array a" and a: "a < length h"
    and d: "dims (h ! a) = [n]" and l: "length (cells (h ! a)) = n"
    by (auto elim: output_buffers.elims)
  have "store a (int i) (result ! 0) h = Some (h[a := (h ! a)\<lparr>cells := (cells (h ! a))[i := result ! 0]\<rparr>])"
    using a assms(2) l by (intro store_Some) simp_all
  then show ?thesis using a d l assms(2) by (simp add: v nth_list_update)
qed

lemma formatOutputArr_TRIPLET:
  assumes "output_buffers OUTPUT_VALUE_TRIPLET v n h" and "i < n" and "i * 3 + 3 \<le> 2 ^ 31"
  shows "\<exists>h'. formatOutputArr OUTPUT_VALUE_TRIPLET result (int i) (Some v) h = Some h' \<and>
           output_buffers OUTPUT_VALUE_TRIPLET v n h' \<and> length h' = length h \<and>
           (\<forall>b. b \<notin> set (arrays_of v) \<longrightarrow> h' ! b = h ! b) \<and>
           (\<forall>j < n. output_row h' v j =
              (if j = i then formatTuple OUTPUT_VALUE_TRIPLET result else output_row h v j))"
proof -
  from assms(1) obtain a where v: "v = Array a" and a: "a < length h"
    and d: "dims (h ! a) = [n, 3]" and l: "length (cells (h ! a)) = n * 3"
    by (auto elim: output_buffers.elims)
  let ?c = "fold (\<lambda>d c. c[i * 3 + d := result ! d]) [0..<3] (cells (h ! a))"
  have b1: "int i * int 3 + int 3 \<le> 2 ^ 31" using assms(3) by simp
  have b2: "i * 3 + 3 \<le> length (cells (h ! a))" using assms(2) l by simp
  have w: "write_row a (int i) 3 result 0 [0..<3] h = Some (h[a := (h ! a)\<lparr>cells := ?c\<rparr>])"
    using write_row_Some [OF a b1 b2, of "[0..<3]" result 0] by simp
  have rows: "map (\<lambda>d. Float (?c ! (j * 3 + d))) [0..<3] =
      (if j = i then map (\<lambda>d. Float (result ! d)) [0..<3]
       else map (\<lambda>d. Float (cells (h ! a) ! (j * 3 + d))) [0..<3])" if "j < n" for j
    using that l by (intro fold_update_row) simp
  have len: "length ?c = n * 3" by (simp only: length_fold_update l)
  show ?thesis
    apply (rule exI [of _ "h[a := (h ! a)\<lparr>cells := ?c\<rparr>]"])
    using a d len rows
    by (simp add: v w formatTuple_TRIPLET_map del: fold_simps formatTuple.simps)
qed

lemma formatOutputArr_TRIPLET_AND_SEXTET:
  assumes "output_buffers OUTPUT_VALUE_TRIPLET_AND_SEXTET v n h" and "i < n" and "i * 6 + 6 \<le> 2 ^ 31"
  shows "\<exists>h'. formatOutputArr OUTPUT_VALUE_TRIPLET_AND_SEXTET result (int i) (Some v) h = Some h' \<and>
           output_buffers OUTPUT_VALUE_TRIPLET_AND_SEXTET v n h' \<and> length h' = length h \<and>
           (\<forall>b. b \<notin> set (arrays_of v) \<longrightarrow> h' ! b = h ! b) \<and>
           (\<forall>j < n. output_row h' v j =
              (if j = i then formatTuple OUTPUT_VALUE_TRIPLET_AND_SEXTET result else output_row h v j))"
proof -
  from assms(1) obtain a1 a2 where v: "v = Tuple [Array a1, Array a2]"
    and ne: "a1 \<noteq> a2" and a1: "a1 < length h" and a2: "a2 < length h"
    and d1: "dims (h ! a1) = [n, 3]" and l1: "length (cells (h ! a1)) = n * 3"
    and d2: "dims (h ! a2) = [n, 6]" and l2: "length (cells (h ! a2)) = n * 6"
    by (auto elim: output_buffers.elims)
  let ?c1 = "fold (\<lambda>d c. c[i * 3 + d := result ! d]) [0..<3] (cells (h ! a1))"
  let ?c2 = "fold (\<lambda>d c. c[i * 6 + d := result ! (d + 3)]) [0..<6] (cells (h ! a2))"
  let ?h1 = "h[a1 := (h ! a1)\<lparr>cells := ?c1\<rparr>]"
  let ?h2 = "?h1[a2 := (h ! a2)\<lparr>cells := ?c2\<rparr>]"
  have b1: "int i * int 3 + int 3 \<le> 2 ^ 31" using assms(3) by simp
  have b2: "i * 3 + 3 \<le> length (cells (h ! a1))" using assms(2) l1 by simp
  have w1: "write_row a1 (int i) 3 result 0 [0..<3] h = Some ?h1"
    using write_row_Some [OF a1 b1 b2, of "[0..<3]" result 0] by simp
  have a2': "a2 < length ?h1" using a2 by simp
  have h1a2: "?h1 ! a2 = h ! a2" using ne by simp
  have b3: "int i * int 6 + int 6 \<le> 2 ^ 31" using assms(3) by simp
  have b4: "i * 6 + 6 \<le> length (cells (?h1 ! a2))" using assms(2) l2 h1a2 by simp
  have "write_row a2 (int i) (int 6) result 3 [0..<6] ?h1 =
      Some (?h1[a2 := (?h1 ! a2)\<lparr>cells := fold (\<lambda>d c. c[i * 6 + d := result ! (d + 3)]) [0..<6] (cells (?h1 ! a2))\<rparr>])"
    by (rule write_row_Some [OF a2' b3 b4]) simp
  then have w2: "write_row a2 (int i) 6 result 3 [0..<6] ?h1 = Some ?h2"
    by (simp only: h1a2 of_nat_numeral)
  have rows1: "map (\<lambda>d. Float (?c1 ! (j * 3 + d))) [0..<3] =
      (if j = i then map (\<lambda>d. Float (result ! d)) [0..<3]
       else map (\<lambda>d. Float (cells (h ! a1) ! (j * 3 + d))) [0..<3])" if "j < n" for j
    using that l1 by (intro fold_update_row) simp
  have rows2: "map (\<lambda>d. Float (?c2 ! (j * 6 + d))) [0..<6] =
      (if j = i then map (\<lambda>d. Float (result ! (d + 3))) [0..<6]
       else map (\<lambda>d. Float (cells (h ! a2) ! (j * 6 + d))) [0..<6])" if "j < n" for j
    using that l2 by (intro fold_update_row) simp
  have len1: "length ?c1 = n * 3" by (simp only: length_fold_update l1)
  have len2: "length ?c2 = n * 6" by (simp only: length_fold_update l2)
  have fo: "formatOutputArr OUTPUT_VALUE_TRIPLET_AND_SEXTET result (int i) (Some v) h = Some ?h2"
    by (simp add: v w1 w2 del: fold_simps)
  have ob: "output_buffers OUTPUT_VALUE_TRIPLET_AND_SEXTET v n ?h2"
    using ne a1 a2 d1 d2 len1 len2 by (simp add: v del: fold_simps)
  have fr: "\<forall>b. b \<notin> set (arrays_of v) \<longrightarrow> ?h2 ! b = h ! b"
    by (simp add: v del: fold_simps)
  have ro: "\<forall>j < n. output_row ?h2 v j =
      (if j = i then formatTuple OUTPUT_VALUE_TRIPLET_AND_SEXTET result else output_row h v j)"
    using ne a1 a2 d1 d2 rows1 rows2
    by (simp add: v formatTuple_TRIPLET_AND_SEXTET_map del: fold_simps formatTuple.simps)
  show ?thesis using fo ob fr ro by (intro exI [of _ ?h2]) simp
qed

lemma formatOutputArr_ok:
  assumes "output_buffers numOutput v n h" and "i < n" and "Suc i * rowWidth numOutput \<le> 2 ^ 31"
  shows "\<exists>h'. formatOutputArr numOutput result (int i) (Some v) h = Some h' \<and>
           output_buffers numOutput v n h' \<and> length h' = length h \<and>
           (\<forall>b. b \<notin> set (arrays_of v) \<longrightarrow> h' ! b = h ! b) \<and>
           (\<forall>j < n. output_row h' v j =
              (if j = i then formatTuple numOutput result else output_row h v j))"
proof (cases numOutput)
  case OUTPUT_VALUE_SINGLE
  show ?thesis
    using assms unfolding OUTPUT_VALUE_SINGLE by (intro formatOutputArr_SINGLE) simp_all
next
  case OUTPUT_VALUE_TRIPLET
  show ?thesis
    using assms unfolding OUTPUT_VALUE_TRIPLET by (intro formatOutputArr_TRIPLET) simp_all
next
  case OUTPUT_VALUE_TRIPLET_AND_SEXTET
  show ?thesis
    using assms unfolding OUTPUT_VALUE_TRIPLET_AND_SEXTET
    by (intro formatOutputArr_TRIPLET_AND_SEXTET) simp_all
qed (use assms in simp_all)

lemma formatOutputArr_frame:
  assumes "formatOutputArr numOutput result index resultObj h = Some h'"
    and "numOutput \<in> {OUTPUT_VALUE_SINGLE, OUTPUT_VALUE_TRIPLET, OUTPUT_VALUE_TRIPLET_AND_SEXTET}"
  shows "length h' = length h \<and>
         (\<forall>b. b \<notin> (case resultObj of None \<Rightarrow> {} | Some v \<Rightarrow> set (arrays_of v)) \<longrightarrow> h' ! b = h ! b)"
  using assms
  by (induction numOutput result index resultObj h rule: formatOutputArr.induct)
     (auto dest!: store_frame write_row_frame split: option.splits)

lemma fnc_loop_frame:
  assumes "fnc_loop numArgs numOutput fnc arr numpt resultObj i h = Some (r, h')"
    and "numOutput \<in> {OUTPUT_VALUE_SINGLE, OUTPUT_VALUE_TRIPLET, OUTPUT_VALUE_TRIPLET_AND_SEXTET}"
  shows "length h' = length h \<and>
         (\<forall>b. b \<notin> (case resultObj of None \<Rightarrow> {} | Some v \<Rightarrow> set (arrays_of v)) \<longrightarrow> h' ! b = h ! b)"
  using assms
proof (induction numArgs numOutput fnc arr numpt resultObj i h rule: fnc_loop.induct)
  case (1 numArgs numOutput fnc arr numpt resultObj i h)
  show ?case
  proof (cases "i < numpt")
    case False
    with "1.prems"(1) show ?thesis by (simp add: fnc_loop.simps)
  next
    case True
    show ?thesis
    proof (cases "fnc (input_at numArgs (PyArray_GETPTR2 (h ! arr) i 0))")
      case (Inl e)
      with True "1.prems"(1) show ?thesis by (simp add: fnc_loop.simps)
    next
      case (Inr result)
      with True "1.prems"(1) obtain h1 where
        f: "formatOutputArr numOutput result i resultObj h = Some h1" and
        l: "fnc_loop numArgs numOutput fnc arr numpt resultObj (i + 1) h1 = Some (r, h')"
        by (subst (asm) fnc_loop.simps) (auto split: option.splits)
      from "1.IH" [OF True Inr f l "1.prems"(2)] formatOutputArr_frame [OF f "1.prems"(2)]
      show ?thesis by simp
    qed
  qed
qed

lemma fnc_loop_prefix:
  assumes "output_buffers numOutput v n h"
    and "m * rowWidth numOutput \<le> 2 ^ 31"
    and "arr \<notin> set (arrays_of v)"
    and "k \<le> m" and "m \<le> n"
    and "\<forall>j. k \<le> j \<and> j < m \<longrightarrow>
           fnc (input_at numArgs (PyArray_GETPTR2 (h ! arr) (int j) 0)) = Inr (r j)"
  shows "\<exists>h'. fnc_loop numArgs numOutput fnc arr (int n) (Some v) (int k) h =
               fnc_loop numArgs numOutput fnc arr (int n) (Some v) (int m) h' \<and>
           output_buffers numOutput v n h' \<and> length h' = length h \<and>
           (\<forall>b. b \<notin> set (arrays_of v) \<longrightarrow> h' ! b = h ! b) \<and>
           (\<forall>j < n. output_row h' v j =
              (if k \<le> j \<and> j < m then formatTuple numOutput (r j) else output_row h v j))"
  using assms
proof (induction "m - k" arbitrary: k h)
  case 0
  then have "k = m" by simp
  with 0 show ?case by (intro exI [of _ h]) auto
next
  case (Suc d)
  then have km: "k < m" and kn: "k < n" by simp_all
  have row: "fnc (input_at numArgs (PyArray_GETPTR2 (h ! arr) (int k) 0)) = Inr (r k)"
    using Suc.prems(6) km by simp
  have "Suc k * rowWidth numOutput \<le> m * rowWidth numOutput"
    using km by (intro mult_le_mono1) simp
  then have sk: "Suc k * rowWidth numOutput \<le> 2 ^ 31" using Suc.prems(2) by simp
  from formatOutputArr_ok [OF Suc.prems(1) kn sk, of "r k"] obtain h1 where
    f: "formatOutputArr numOutput (r k) (int k) (Some v) h = Some h1" and
    ob: "output_buffers numOutput v n h1" and len: "length h1 = length h" and
    fr: "\<forall>b. b \<notin> set (arrays_of v) \<longrightarrow> h1 ! b = h ! b" and
    ro: "\<forall>j < n. output_row h1 v j = (if j = k then formatTuple numOutput (r k) else output_row h v j)"
    by blast
  have step: "fnc_loop numArgs numOutput fnc arr (int n) (Some v) (int k) h =
      fnc_loop numArgs numOutput fnc arr (int n) (Some v) (int (Suc k)) h1"
    using kn by (subst fnc_loop.simps) (simp add: row f add.commute)
  have arr: "h1 ! arr = h ! arr" using fr Suc.prems(3) by simp
  have rows1: "\<forall>j. Suc k \<le> j \<and> j < m \<longrightarrow>
      fnc (input_at numArgs (PyArray_GETPTR2 (h1 ! arr) (int j) 0)) = Inr (r j)"
    using Suc.prems(6) arr by simp
  have "d = m - Suc k" using Suc.hyps(2) by simp
  from Suc.hyps(1) [OF this ob Suc.prems(2) Suc.prems(3) _ Suc.prems(5) rows1] km
  obtain h' where
    l: "fnc_loop numArgs numOutput fnc arr (int n) (Some v) (int (Suc k)) h1 =
        fnc_loop numArgs numOutput fnc arr (int n) (Some v) (int m) h'" and
    ob': "output_buffers numOutput v n h'" and len': "length h' = length h1" and
    fr': "\<forall>b. b \<notin> set (arrays_of v) \<longrightarrow> h' ! b = h1 ! b" and
    ro': "\<forall>j < n. output_row h' v j =
        (if Suc k \<le> j \<and> j < m then formatTuple numOutput (r j) else output_row h1 v j)"
    by auto
  have "\<forall>j < n. output_row h' v j =
      (if k \<le> j \<and> j < m then formatTuple numOutput (r j) else output_row h v j)"
    using ro ro' km by (auto simp: not_less_eq_eq)
  then show ?case using step l ob' len len' fr fr' by (intro exI [of _ h']) simp
qed

lemma allocOutputArr_ok:
  assumes "numOutput \<in> {OUTPUT_VALUE_SINGLE, OUTPUT_VALUE_TRIPLET, OUTPUT_VALUE_TRIPLET_AND_SEXTET}"
  shows "\<exists>v h2. allocOutputArr numOutput uninit (int n) h = (Some v, h2) \<and>
           output_buffers numOutput v n h2 \<and> (\<forall>a \<in> set (arrays_of v). length h \<le> a) \<and>
           length h \<le> length h2 \<and> (\<forall>b < length h. h2 ! b = h ! b)"
  using assms by (auto simp: PyArray_SimpleNew_def nth_append)

lemma allocOutputArr_frame:
  assumes "allocOutputArr numOutput uninit sz h = (resultObj, h2)"
    and "numOutput \<in> {OUTPUT_VALUE_SINGLE, OUTPUT_VALUE_TRIPLET, OUTPUT_VALUE_TRIPLET_AND_SEXTET}"
  shows "length h \<le> length h2 \<and> (\<forall>b < length h. h2 ! b = h ! b) \<and>
         (\<forall>a \<in> (case resultObj of None \<Rightarrow> {} | Some v \<Rightarrow> set (arrays_of v)). length h \<le> a)"
  using assms by (auto simp: PyArray_SimpleNew_def nth_append split: if_splits)

lemma specialised_out:
  "specialised numArgs numOutput \<Longrightarrow>
   numOutput \<in> {OUTPUT_VALUE_SINGLE, OUTPUT_VALUE_TRIPLET, OUTPUT_VALUE_TRIPLET_AND_SEXTET}"
  by (auto simp: specialised_def)

lemma parseTuple_single_object:
  "specialised numArgs numOutput \<Longrightarrow> parseTuple numArgs [obj] = None"
  by (auto simp: specialised_def PyArg_ParseTuple_d_def)

lemma inputLength_enum_value:
  "inputLength numArgs = enum_value numArgs"
  by (cases numArgs) simp_all

lemma input_at_row:
  "dims arr ! 1 = enum_value numArgs \<Longrightarrow>
   input_at numArgs (PyArray_GETPTR2 arr (int j) 0) = input_row numArgs arr j"
  by (simp add: input_at_def PyArray_GETPTR2_def input_row_def inputLength_enum_value)

lemma PyArray_FROM_OTF_valid:
  "PyArray_FROM_OTF obj h = (Some arr, h1) \<Longrightarrow> valid_object h obj \<Longrightarrow>
   arr < length h1 \<and> length h \<le> length h1 \<and> (\<forall>b < length h. h1 ! b = h ! b)"
  by (auto simp: PyArray_FROM_OTF_def valid_object_def nth_append split: array_conv.splits)

lemma PyArray_FROM_OTF_frame:
  "PyArray_FROM_OTF obj h = (r, h1) \<Longrightarrow>
   length h \<le> length h1 \<and> (\<forall>b < length h. h1 ! b = h ! b)"
  by (auto simp: PyArray_FROM_OTF_def nth_append split: array_conv.splits)

lemma batch_prefix:
  assumes sp: "specialised numArgs numOutput"
    and conv: "PyArray_FROM_OTF obj h = (Some arr, h1)"
    and valid: "valid_object h obj"
    and dims: "dims (h1 ! arr) = [N, enum_value numArgs]"
    and numpt: "int_of_npy_intp N = int n"
    and bound: "m * rowWidth numOutput \<le> 2 ^ 31"
    and mn: "m \<le> n"
    and rows: "\<forall>j < m. fnc (input_row numArgs (h1 ! arr) j) = Inr (r j)"
  shows "\<exists>v h'. callAnyFunctionOnArray numArgs numOutput fnc uninit h [obj] =
           (case fnc_loop numArgs numOutput fnc arr (int n) (Some v) (int m) h' of
              None \<Rightarrow> None
            | Some (Some e, h3) \<Rightarrow> Some (caught e, h3)
            | Some (None, h3) \<Rightarrow> Some (Inr v, h3)) \<and>
           output_buffers numOutput v n h' \<and>
           (\<forall>a \<in> set (arrays_of v). length h1 \<le> a) \<and>
           length h1 \<le> length h' \<and> (\<forall>b < length h1. h' ! b = h1 ! b) \<and>
           (\<forall>j < m. output_row h' v j = formatTuple numOutput (r j))"
proof -
  note so = specialised_out [OF sp]
  from PyArray_FROM_OTF_valid [OF conv valid] have arr: "arr < length h1" by simp
  from allocOutputArr_ok [OF so, of uninit n h1] obtain v h2 where
    al: "allocOutputArr numOutput uninit (int n) h1 = (Some v, h2)" and
    ob: "output_buffers numOutput v n h2" and
    fresh: "\<forall>a \<in> set (arrays_of v). length h1 \<le> a" and
    len2: "length h1 \<le> length h2" and fr2: "\<forall>b < length h1. h2 ! b = h1 ! b"
    by blast
  have notin: "arr \<notin> set (arrays_of v)" using fresh arr by auto
  have h2arr: "h2 ! arr = h1 ! arr" using fr2 arr by simp
  have rows2: "\<forall>j. 0 \<le> j \<and> j < m \<longrightarrow>
      fnc (input_at numArgs (PyArray_GETPTR2 (h2 ! arr) (int j) 0)) = Inr (r j)"
    using rows dims by (simp add: h2arr input_at_row)
  from fnc_loop_prefix [OF ob bound notin _ mn rows2] obtain h' where
    l: "fnc_loop numArgs numOutput fnc arr (int n) (Some v) (int 0) h2 =
        fnc_loop numArgs numOutput fnc arr (int n) (Some v) (int m) h'" and
    ob': "output_buffers numOutput v n h'" and len': "length h' = length h2" and
    fr': "\<forall>b. b \<notin> set (arrays_of v) \<longrightarrow> h' ! b = h2 ! b" and
    ro': "\<forall>j < n. output_row h' v j =
        (if 0 \<le> j \<and> j < m then formatTuple numOutput (r j) else output_row h2 v j)"
    by auto
  have call: "callAnyFunctionOnArray numArgs numOutput fnc uninit h [obj] =
      (case fnc_loop numArgs numOutput fnc arr (int n) (Some v) (int m) h' of
         None \<Rightarrow> None
       | Some (Some e, h3) \<Rightarrow> Some (caught e, h3)
       | Some (None, h3) \<Rightarrow> Some (Inr v, h3))"
    using l
    by (simp add: callAnyFunctionOnArray_def parseTuple_single_object [OF sp] conv dims numpt al
        split: option.split)
  have fr: "\<forall>b < length h1. h' ! b = h1 ! b"
  proof (intro allI impI)
    fix b assume "b < length h1"
    then have "b \<notin> set (arrays_of v)" using fresh by auto
    with fr' fr2 \<open>b < length h1\<close> show "h' ! b = h1 ! b" by simp
  qed
  have ro: "\<forall>j < m. output_row h' v j = formatTuple numOutput (r j)"
    using ro' mn by simp
  show ?thesis using call ob' fresh len' len2 fr ro by (intro exI [of _ v] exI [of _ h']) simp
qed

lemma batch_ok:
  assumes sp: "specialised numArgs numOutput"
    and conv: "PyArray_FROM_OTF obj h = (Some arr, h1)"
    and valid: "valid_object h obj"
    and dims: "dims (h1 ! arr) = [n, enum_value numArgs]"
    and bound: "n * rowWidth numOutput < 2 ^ 31"
    and rows: "\<forall>j < n. fnc (input_row numArgs (h1 ! arr) j) = Inr (r j)"
  shows "\<exists>v h'. callAnyFunctionOnArray numArgs numOutput fnc uninit h [obj] = Some (Inr v, h') \<and>
           output_buffers numOutput v n h' \<and>
           (\<forall>a \<in> set (arrays_of v). length h1 \<le> a) \<and>
           length h1 \<le> length h' \<and> (\<forall>b < length h1. h' ! b = h1 ! b) \<and>
           (\<forall>j < n. output_row h' v j = formatTuple numOutput (r j))"
proof -
  have "n < 2 ^ 31" using sp bound by (auto simp: specialised_def)
  then have numpt: "int_of_npy_intp n = int n" by (rule int_of_npy_intp_small)
  have bound': "n * rowWidth numOutput \<le> 2 ^ 31" using bound by simp
  from batch_prefix [OF sp conv valid dims numpt bound' order_refl rows, of uninit]
  show ?thesis by (simp add: fnc_loop.simps)
qed

lemma those_map_PyFloat: "those (map PyFloat_AsDouble (map PyFloat xs)) = Some xs"
  by (induction xs) (simp_all add: PyFloat_def)

lemma those_length: "those ys = Some xs \<Longrightarrow> length xs = length ys"
  by (induction ys arbitrary: xs) (auto split: option.splits)

lemma parseTuple_numbers:
  assumes "specialised numArgs numOutput" and "length args = enum_value numArgs"
  shows "parseTuple numArgs args = those (map PyFloat_AsDouble args)"
  using assms by (auto simp: specialised_def PyArg_ParseTuple_d_def)

lemma flat_call:
  assumes sp: "specialised numArgs numOutput"
    and len: "length args = enum_value numArgs"
    and num: "those (map PyFloat_AsDouble args) = Some xs"
  shows "callAnyFunctionOnArray numArgs numOutput fnc uninit h args =
           Some (single_point numOutput fnc xs, h)"
proof -
  have "length xs = enum_value numArgs" using those_length [OF num] len by simp
  then have "input_at numArgs xs = xs" by (simp add: input_at_def inputLength_enum_value)
  then show ?thesis
    by (simp add: callAnyFunctionOnArray_def parseTuple_numbers [OF sp len] num single_point_def
        split: sum.split)
qed

lemma length_input_row:
  assumes "j < n" and "length (cells arr) = n * enum_value numArgs"
  shows "length (input_row numArgs arr j) = enum_value numArgs"
proof -
  have "Suc j * enum_value numArgs \<le> n * enum_value numArgs"
    using assms(1) by (intro mult_le_mono1) simp
  then show ?thesis using assms(2) by (simp add: input_row_def)
qed

lemma upt_0_2: "[0..<2] = [0, 1]"
  by code_simp

lemma fnc_loop_raise_here:
  "k < n \<Longrightarrow> fnc (input_at numArgs (PyArray_GETPTR2 (h ! arr) (int k) 0)) = Inl e \<Longrightarrow>
   fnc_loop numArgs numOutput fnc arr (int n) resultObj (int k) h = Some (Some e, h)"
  by (subst fnc_loop.simps) simp

lemma fnc_loop_first_raise:
  assumes "numOutput \<in> {OUTPUT_VALUE_SINGLE, OUTPUT_VALUE_TRIPLET, OUTPUT_VALUE_TRIPLET_AND_SEXTET}"
    and "arr \<notin> (case resultObj of None \<Rightarrow> {} | Some v \<Rightarrow> set (arrays_of v))"
    and "i \<le> k" and "k < n"
    and "fnc (input_at numArgs (PyArray_GETPTR2 (h ! arr) (int k) 0)) = Inl e"
    and "\<forall>j. i \<le> j \<and> j < k \<longrightarrow>
           fnc (input_at numArgs (PyArray_GETPTR2 (h ! arr) (int j) 0)) = Inr (r j)"
    and "fnc_loop numArgs numOutput fnc arr (int n) resultObj (int i) h = Some (x, h')"
  shows "x = Some e"
  using assms(3-)
proof (induction "k - i" arbitrary: i h)
  case 0
  then have "i = k" by simp
  with 0 fnc_loop_raise_here [of k n fnc numArgs h arr e numOutput resultObj] show ?case by simp
next
  case (Suc d)
  then have ik: "i < k" and "i < n" by simp_all
  have row: "fnc (input_at numArgs (PyArray_GETPTR2 (h ! arr) (int i) 0)) = Inr (r i)"
    using Suc.prems(4) ik by simp
  from Suc.prems(5) \<open>i < n\<close> row obtain h1 where
    f: "formatOutputArr numOutput (r i) (int i) resultObj h = Some h1" and
    l: "fnc_loop numArgs numOutput fnc arr (int n) resultObj (int (Suc i)) h1 = Some (x, h')"
    by (subst (asm) fnc_loop.simps) (auto simp: add.commute split: option.splits)
  from formatOutputArr_frame [OF f assms(1)] assms(2) have arr: "h1 ! arr = h ! arr" by simp
  have "d = k - Suc i" using Suc.hyps(2) by simp
  from Suc.hyps(1) [OF this _ Suc.prems(2) _ _ l] ik Suc.prems(3,4) arr
  show ?case by simp
qed

lemma dims_two: "length ds = 2 \<Longrightarrow> ds = [ds ! 0, ds ! 1]"
  by (cases ds; cases "tl ds") auto

subsection \<open>Where the call has an outcome\<close>

text \<open>
  The dispatcher computes the position of an output cell as \<^verbatim>\<open>index*3+d\<close> or \<^verbatim>\<open>index*6+d\<close> in
  \<^verbatim>\<open>int\<close>. The first row at which such a sum leaves the range of \<^verbatim>\<open>int\<close> has no defined
  behaviour in C++, and the model has no outcome there.
\<close>

lemma int_arith_below:
  "0 \<le> p \<Longrightarrow> 0 \<le> d \<Longrightarrow> p + d < 2 ^ 31 \<Longrightarrow>
   int_arith p = Some p \<and> int_arith (p + d) = Some (p + d)"
  by (simp add: int_arith_def)

lemma write_row_overflow:
  assumes "a < length h"
    and "i * w + w \<le> length (cells (h ! a))"
    and "\<exists>d \<in> set ds. 2 ^ 31 \<le> int i * int w + int d"
    and "\<forall>d \<in> set ds. d < w"
  shows "write_row a (int i) (int w) result off ds h = None"
  using assms
proof (induction ds arbitrary: h)
  case Nil
  then show ?case by simp
next
  case (Cons d ds)
  show ?case
  proof (cases "2 ^ 31 \<le> int i * int w + int d")
    case True
    then show ?thesis by (auto simp: int_arith_def split: option.splits)
  next
    case False
    have nn: "0 \<le> int i * int w" and d0: "0 \<le> int d" by simp_all
    from False have "int i * int w + int d < 2 ^ 31" by simp
    note ar = int_arith_below [OF nn d0 this]
    have m: "int_arith (int i * int w) = Some (int i * int w)"
      and j: "int_arith (int i * int w + int d) = Some (int i * int w + int d)"
      using ar by blast+
    have dw: "d < w" using Cons.prems(4) by simp
    have lt: "i * w + d < length (cells (h ! a))" using Cons.prems(2) dw by arith
    let ?h1 = "h[a := (h ! a)\<lparr>cells := (cells (h ! a))[i * w + d := result ! (d + off)]\<rparr>]"
    have st: "store a (int i * int w + int d) (result ! (d + off)) h = Some ?h1"
      using store_Some [OF Cons.prems(1) lt, of "result ! (d + off)"] by simp
    have "write_row a (int i) (int w) result off ds ?h1 = None"
      using Cons.prems False by (intro Cons.IH) simp_all
    then show ?thesis by (simp add: m j st)
  qed
qed

lemma formatOutputArr_overflow:
  assumes "output_buffers numOutput v n h" and "i < n"
    and "numOutput \<noteq> OUTPUT_VALUE_SINGLE"
    and "2 ^ 31 < Suc i * rowWidth numOutput"
  shows "formatOutputArr numOutput result (int i) (Some v) h = None"
proof (cases numOutput)
  case OUTPUT_VALUE_TRIPLET
  with assms(1) obtain a where v: "v = Array a" and a: "a < length h"
    and l: "length (cells (h ! a)) = n * 3"
    by (auto elim: output_buffers.elims)
  have b: "i * 3 + 3 \<le> length (cells (h ! a))" using assms(2) l by simp
  have "2 ^ 31 \<le> int i * int 3 + int 2" using assms(4) OUTPUT_VALUE_TRIPLET by simp
  then have ex: "\<exists>d \<in> set [0..<3]. 2 ^ 31 \<le> int i * int 3 + int d" by (auto simp: upt_0_3)
  from write_row_overflow [OF a b ex, of result 0] show ?thesis
    by (simp add: OUTPUT_VALUE_TRIPLET v)
next
  case OUTPUT_VALUE_TRIPLET_AND_SEXTET
  with assms(1) obtain a1 a2 where v: "v = Tuple [Array a1, Array a2]"
    and ne: "a1 \<noteq> a2" and a1: "a1 < length h" and a2: "a2 < length h"
    and l2: "length (cells (h ! a2)) = n * 6"
    by (auto elim: output_buffers.elims)
  have "2 ^ 31 \<le> int i * int 6 + int 5" using assms(4) OUTPUT_VALUE_TRIPLET_AND_SEXTET by simp
  then have ex: "\<exists>d \<in> set [0..<6]. 2 ^ 31 \<le> int i * int 6 + int d" by (auto simp: upt_0_6)
  show ?thesis
  proof (cases "write_row a1 (int i) 3 result 0 [0..<3] h")
    case None
    then show ?thesis by (simp add: OUTPUT_VALUE_TRIPLET_AND_SEXTET v)
  next
    case (Some h1)
    from write_row_frame [OF Some] ne have len: "length h1 = length h" and eq: "h1 ! a2 = h ! a2"
      by simp_all
    have a2': "a2 < length h1" using a2 len by simp
    have b: "i * 6 + 6 \<le> length (cells (h1 ! a2))" using assms(2) l2 eq by simp
    from write_row_overflow [OF a2' b ex, of result 3] Some show ?thesis
      by (simp add: OUTPUT_VALUE_TRIPLET_AND_SEXTET v)
  qed
qed (use assms in simp_all)

lemma batch_overflow:
  assumes sp: "specialised numArgs numOutput"
    and conv: "PyArray_FROM_OTF obj h = (Some arr, h1)"
    and valid: "valid_object h obj"
    and dims: "dims (h1 ! arr) = [N, enum_value numArgs]"
    and numpt: "int_of_npy_intp N = int n"
    and mn: "m < n"
    and before: "m * rowWidth numOutput \<le> 2 ^ 31"
    and over: "2 ^ 31 < Suc m * rowWidth numOutput"
    and ns: "numOutput \<noteq> OUTPUT_VALUE_SINGLE"
    and rows: "\<forall>j \<le> m. fnc (input_row numArgs (h1 ! arr) j) = Inr (r j)"
  shows "callAnyFunctionOnArray numArgs numOutput fnc uninit h [obj] = None"
proof -
  from PyArray_FROM_OTF_valid [OF conv valid] have arr: "arr < length h1" by simp
  have rows': "\<forall>j < m. fnc (input_row numArgs (h1 ! arr) j) = Inr (r j)" using rows by simp
  from batch_prefix [OF sp conv valid dims numpt before less_imp_le [OF mn] rows', of uninit]
  obtain v h' where
    call: "callAnyFunctionOnArray numArgs numOutput fnc uninit h [obj] =
      (case fnc_loop numArgs numOutput fnc arr (int n) (Some v) (int m) h' of
         None \<Rightarrow> None
       | Some (Some e, h3) \<Rightarrow> Some (caught e, h3)
       | Some (None, h3) \<Rightarrow> Some (Inr v, h3))" and
    ob: "output_buffers numOutput v n h'" and
    fr: "\<forall>b < length h1. h' ! b = h1 ! b"
    by blast
  have "fnc (input_at numArgs (PyArray_GETPTR2 (h' ! arr) (int m) 0)) = Inr (r m)"
    using rows fr arr dims by (simp add: input_at_row)
  moreover have "formatOutputArr numOutput (r m) (int m) (Some v) h' = None"
    using ob mn ns over by (rule formatOutputArr_overflow)
  ultimately have "fnc_loop numArgs numOutput fnc arr (int n) (Some v) (int m) h' = None"
    using mn by (subst fnc_loop.simps) simp
  with call show ?thesis by simp
qed

lemma dims_two_ex: "length ds = 2 \<Longrightarrow> ds ! 1 = a \<Longrightarrow> \<exists>N. ds = [N, a]"
  by (cases ds; cases "tl ds") auto

lemma batch_total:
  assumes sp: "specialised numArgs numOutput"
    and conv: "PyArray_FROM_OTF obj h = (Some arr, h1)"
    and valid: "valid_object h obj"
    and dims: "dims (h1 ! arr) = [N, enum_value numArgs]"
    and bound: "nat (int_of_npy_intp N) * rowWidth numOutput \<le> 2 ^ 31"
  shows "\<exists>res h'. callAnyFunctionOnArray numArgs numOutput fnc uninit h [obj] = Some (res, h')"
proof (cases "int_of_npy_intp N < 0")
  case True
  obtain resultObj h2 where
    al: "allocOutputArr numOutput uninit (int_of_npy_intp N) h1 = (resultObj, h2)"
    by (cases "allocOutputArr numOutput uninit (int_of_npy_intp N) h1")
  have "fnc_loop numArgs numOutput fnc arr (int_of_npy_intp N) resultObj 0 h2 = Some (None, h2)"
    using True by (subst fnc_loop.simps) simp
  then show ?thesis
    by (simp add: callAnyFunctionOnArray_def parseTuple_single_object [OF sp] conv dims al)
next
  case False
  define n where "n = nat (int_of_npy_intp N)"
  have numpt: "int_of_npy_intp N = int n" using False by (simp add: n_def)
  have bound': "n * rowWidth numOutput \<le> 2 ^ 31" using bound by (simp add: n_def)
  from PyArray_FROM_OTF_valid [OF conv valid] have arr: "arr < length h1" by simp
  let ?raises = "\<lambda>j. \<exists>e. fnc (input_row numArgs (h1 ! arr) j) = Inl e"
  define r where "r = (\<lambda>j. projr (fnc (input_row numArgs (h1 ! arr) j)))"
  have ok: "fnc (input_row numArgs (h1 ! arr) j) = Inr (r j)" if "\<not> ?raises j" for j
    using that by (cases "fnc (input_row numArgs (h1 ! arr) j)") (simp_all add: r_def)
  show ?thesis
  proof (cases "\<exists>k < n. ?raises k")
    case True
    define k where "k = (LEAST k. k < n \<and> ?raises k)"
    from True have kk: "k < n \<and> ?raises k"
      unfolding k_def by (rule LeastI_ex)
    then obtain e where e: "fnc (input_row numArgs (h1 ! arr) k) = Inl e" by blast
    have "\<not> ?raises j" if "j < k" for j
    proof
      assume "?raises j"
      with that kk have "j < n \<and> ?raises j" by simp
      then have "k \<le> j" unfolding k_def by (rule Least_le)
      with that show False by simp
    qed
    with ok have rows: "\<forall>j < k. fnc (input_row numArgs (h1 ! arr) j) = Inr (r j)" by blast
    have "k * rowWidth numOutput \<le> n * rowWidth numOutput"
      using kk by (intro mult_le_mono1) simp
    from this bound' have bk: "k * rowWidth numOutput \<le> 2 ^ 31" by (rule order_trans)
    from batch_prefix [OF sp conv valid dims numpt bk less_imp_le rows, of uninit] kk
    obtain v h' where
      call: "callAnyFunctionOnArray numArgs numOutput fnc uninit h [obj] =
        (case fnc_loop numArgs numOutput fnc arr (int n) (Some v) (int k) h' of
           None \<Rightarrow> None
         | Some (Some e, h3) \<Rightarrow> Some (caught e, h3)
         | Some (None, h3) \<Rightarrow> Some (Inr v, h3))" and
      fr: "\<forall>b < length h1. h' ! b = h1 ! b"
      by blast
    have "fnc (input_at numArgs (PyArray_GETPTR2 (h' ! arr) (int k) 0)) = Inl e"
      using e fr arr dims by (simp add: input_at_row)
    then have "fnc_loop numArgs numOutput fnc arr (int n) (Some v) (int k) h' = Some (Some e, h')"
      using kk by (intro fnc_loop_raise_here) simp
    with call show ?thesis by simp
  next
    case False
    with ok have rows: "\<forall>j < n. fnc (input_row numArgs (h1 ! arr) j) = Inr (r j)" by blast
    from batch_prefix [OF sp conv valid dims numpt bound' order_refl rows, of uninit]
    obtain v h' where
      call: "callAnyFunctionOnArray numArgs numOutput fnc uninit h [obj] =
        (case fnc_loop numArgs numOutput fnc arr (int n) (Some v) (int n) h' of
           None \<Rightarrow> None
         | Some (Some e, h3) \<Rightarrow> Some (caught e, h3)
         | Some (None, h3) \<Rightarrow> Some (Inr v, h3))"
      by blast
    have "fnc_loop numArgs numOutput fnc arr (int n) (Some v) (int n) h' = Some (None, h')"
      by (subst fnc_loop.simps) simp
    with call show ?thesis by simp
  qed
qed

subsection \<open>The claims about the dispatcher\<close>

text \<open>
  Claim C1 says that for every input array of N rows the batch result has N rows, row \<open>i\<close>
  being the result for row \<open>i\<close> of the input. The row count is read into an \<^verbatim>\<open>int\<close>
  (\<^verbatim>\<open>numpt = PyArray_DIM(arr, 0)\<close>): for an array of \<open>2 ^ 32\<close> rows \<^verbatim>\<open>numpt\<close> is 0, the loop
  body never runs and the output array has no row.
\<close>

theorem callAnyFunctionOnArray_rows_narrowed:
  "callAnyFunctionOnArray INPUT_VALUE_TRIPLET OUTPUT_VALUE_TRIPLET (\<lambda>p. Inr (map uminus p)) (\<lambda>a i. 0)
     [\<lparr>dims = [2 ^ 32, 3], cells = replicate (3 * 2 ^ 32) 1\<rparr>] [PyObj None (SameArray 0)] =
   Some (Inr (Array 1),
     [\<lparr>dims = [2 ^ 32, 3], cells = replicate (3 * 2 ^ 32) 1\<rparr>, \<lparr>dims = [0, 3], cells = []\<rparr>])"
  by (simp add: callAnyFunctionOnArray_def PyArg_ParseTuple_d_def PyArray_FROM_OTF_def
      int_of_npy_intp_def PyArray_SimpleNew_def fnc_loop.simps)

text \<open>
  Where the rows are within the reach of the \<^verbatim>\<open>int\<close> arithmetic, the batch is evaluated row
  by row: for every input array of N rows by arity columns with \<open>N * w < 2 ^ 31\<close>, where
  \<open>w\<close> is the widest row of the output shape (1, 3 or 6), on every row of which the
  computation function returns, the batch path returns output in which row \<open>i\<close> is the
  formatted result of the function on row \<open>i\<close> of the input, and that is the value the
  single-point call with the numbers of row \<open>i\<close> as flat arguments returns; so a batch of
  one row yields the values of the single-point call.
\<close>

theorem callAnyFunctionOnArray_rows:
  assumes "specialised numArgs numOutput"
    and "PyArray_FROM_OTF obj h = (Some arr, h1)" and "valid_object h obj"
    and "dims (h1 ! arr) = [n, enum_value numArgs]"
    and "length (cells (h1 ! arr)) = n * enum_value numArgs"
    and "n * rowWidth numOutput < 2 ^ 31"
    and "\<forall>j < n. fnc (input_row numArgs (h1 ! arr) j) = Inr (r j) \<and>
           length (r j) = outputLength numOutput"
  shows "\<exists>v h'. callAnyFunctionOnArray numArgs numOutput fnc uninit h [obj] = Some (Inr v, h') \<and>
           (\<forall>j < n. output_row h' v j = formatTuple numOutput (r j) \<and>
              callAnyFunctionOnArray numArgs numOutput fnc uninit h
                (map PyFloat (input_row numArgs (h1 ! arr) j)) = Some (Inr (output_row h' v j), h))"
proof -
  from assms(7) have rows: "\<forall>j < n. fnc (input_row numArgs (h1 ! arr) j) = Inr (r j)" by simp
  from batch_ok [OF assms(1-4) assms(6) rows, of uninit] obtain v h' where
    call: "callAnyFunctionOnArray numArgs numOutput fnc uninit h [obj] = Some (Inr v, h')" and
    ro: "\<forall>j < n. output_row h' v j = formatTuple numOutput (r j)"
    by blast
  have "callAnyFunctionOnArray numArgs numOutput fnc uninit h
      (map PyFloat (input_row numArgs (h1 ! arr) j)) = Some (Inr (output_row h' v j), h)"
    if "j < n" for j
  proof -
    have "length (map PyFloat (input_row numArgs (h1 ! arr) j)) = enum_value numArgs"
      using length_input_row [OF that assms(5)] by simp
    from flat_call [OF assms(1) this those_map_PyFloat]
    show ?thesis using rows ro that by (simp add: single_point_def)
  qed
  with call ro show ?thesis by blast
qed

theorem callAnyFunctionOnArray_rows_witness:
  "\<exists>v h'. callAnyFunctionOnArray INPUT_VALUE_TRIPLET OUTPUT_VALUE_TRIPLET (\<lambda>p. Inr (map uminus p))
       (\<lambda>a i. 0) [\<lparr>dims = [2, 3], cells = [1, 2, 3, 4, 5, 6]\<rparr>] [PyObj None (SameArray 0)] =
         Some (Inr v, h') \<and>
       output_row h' v 0 = Tuple [Float (- 1), Float (- 2), Float (- 3)] \<and>
       output_row h' v 1 = Tuple [Float (- 4), Float (- 5), Float (- 6)] \<and>
       callAnyFunctionOnArray INPUT_VALUE_TRIPLET OUTPUT_VALUE_TRIPLET (\<lambda>p. Inr (map uminus p))
         (\<lambda>a i. 0) [\<lparr>dims = [2, 3], cells = [1, 2, 3, 4, 5, 6]\<rparr>] [PyFloat 4, PyFloat 5, PyFloat 6] =
         Some (Inr (output_row h' v 1), [\<lparr>dims = [2, 3], cells = [1, 2, 3, 4, 5, 6]\<rparr>])"
proof -
  let ?h = "[\<lparr>dims = [2, 3], cells = [1, 2, 3, 4, 5, 6 :: real]\<rparr>]"
  let ?fnc = "\<lambda>p :: real list. (Inr (map uminus p) :: string + real list)"
  let ?r = "\<lambda>j. map uminus (input_row INPUT_VALUE_TRIPLET (?h ! 0) j)"
  have sp: "specialised INPUT_VALUE_TRIPLET OUTPUT_VALUE_TRIPLET" by (simp add: specialised_def)
  have conv: "PyArray_FROM_OTF (PyObj None (SameArray 0)) ?h = (Some 0, ?h)"
    by (simp add: PyArray_FROM_OTF_def)
  have valid: "valid_object ?h (PyObj None (SameArray 0))" by (simp add: valid_object_def)
  have dims: "dims (?h ! 0) = [2, enum_value INPUT_VALUE_TRIPLET]" by simp
  have len: "length (cells (?h ! 0)) = 2 * enum_value INPUT_VALUE_TRIPLET" by simp
  have bound: "2 * rowWidth OUTPUT_VALUE_TRIPLET < 2 ^ 31" by simp
  have rows: "\<forall>j < 2. ?fnc (input_row INPUT_VALUE_TRIPLET (?h ! 0) j) = Inr (?r j) \<and>
      length (?r j) = outputLength OUTPUT_VALUE_TRIPLET"
    using length_input_row [OF _ len] by simp
  from callAnyFunctionOnArray_rows [OF sp conv valid dims len bound rows, of "\<lambda>a i. 0"]
  obtain v h' where
    call: "callAnyFunctionOnArray INPUT_VALUE_TRIPLET OUTPUT_VALUE_TRIPLET ?fnc (\<lambda>a i. 0) ?h
             [PyObj None (SameArray 0)] = Some (Inr v, h')" and
    ro: "\<forall>j < 2. output_row h' v j = formatTuple OUTPUT_VALUE_TRIPLET (?r j) \<and>
           callAnyFunctionOnArray INPUT_VALUE_TRIPLET OUTPUT_VALUE_TRIPLET ?fnc (\<lambda>a i. 0) ?h
             (map PyFloat (input_row INPUT_VALUE_TRIPLET (?h ! 0) j)) = Some (Inr (output_row h' v j), ?h)"
    by blast
  from ro [rule_format, of 0] have r0: "output_row h' v 0 = Tuple [Float (- 1), Float (- 2), Float (- 3)]"
    by (simp add: input_row_def)
  from ro [rule_format, of 1] have r1: "output_row h' v 1 = Tuple [Float (- 4), Float (- 5), Float (- 6)]"
    and f1: "callAnyFunctionOnArray INPUT_VALUE_TRIPLET OUTPUT_VALUE_TRIPLET ?fnc (\<lambda>a i. 0) ?h
             [PyFloat 4, PyFloat 5, PyFloat 6] = Some (Inr (output_row h' v 1), ?h)"
    by (simp_all add: input_row_def)
  from call r0 r1 f1 show ?thesis by blast
qed

text \<open>
  Claim C3 says that every two-dimensional array whose second dimension is the arity is
  treated as N points, N being the first dimension. With \<open>2 ^ 32\<close> rows of six numbers the
  call evaluates no point and returns an empty array.
\<close>

theorem callAnyFunctionOnArray_shapes_narrowed:
  "callAnyFunctionOnArray INPUT_VALUE_SEXTET OUTPUT_VALUE_SINGLE (\<lambda>p. Inr [p ! 0]) (\<lambda>a i. 0)
     [\<lparr>dims = [2 ^ 32, 6], cells = replicate (6 * 2 ^ 32) 1\<rparr>] [PyObj None (SameArray 0)] =
   Some (Inr (Array 1),
     [\<lparr>dims = [2 ^ 32, 6], cells = replicate (6 * 2 ^ 32) 1\<rparr>, \<lparr>dims = [0], cells = []\<rparr>])"
  by (simp add: callAnyFunctionOnArray_def PyArg_ParseTuple_d_def PyArray_FROM_OTF_def
      int_of_npy_intp_def PyArray_SimpleNew_def fnc_loop.simps)

text \<open>
  The other shapes, and the two-dimensional arrays within the reach of the \<^verbatim>\<open>int\<close>
  arithmetic, are classified this way: a flat list of exactly arity numbers, and a
  one-dimensional array of length arity, are a single point, and the call returns the
  single formatted result (the error of the handler if the function raises); a
  two-dimensional array of N rows whose second dimension is the arity, with
  \<open>N * w < 2 ^ 31\<close>, is N points: if the function returns on every row, the call returns
  output buffers for N points, row \<open>i\<close> holding the result for row \<open>i\<close>; an array of any
  other shape fails with the \<^verbatim>\<open>ValueError\<close> that carries \<open>errStrInvalidArrayDim\<close> of the
  arity, and the heap holds no output array (it is the heap after the conversion of the
  argument).
\<close>

theorem callAnyFunctionOnArray_shapes:
  assumes sp: "specialised numArgs numOutput"
  shows "(length args = enum_value numArgs \<and> those (map PyFloat_AsDouble args) = Some xs \<longrightarrow>
            callAnyFunctionOnArray numArgs numOutput fnc uninit h args =
              Some (single_point numOutput fnc xs, h)) \<and>
         (PyArray_FROM_OTF obj h = (Some arr, h1) \<and> dims (h1 ! arr) = [enum_value numArgs] \<longrightarrow>
            callAnyFunctionOnArray numArgs numOutput fnc uninit h [obj] =
              Some (single_point numOutput fnc (take (enum_value numArgs) (cells (h1 ! arr))), h1)) \<and>
         (PyArray_FROM_OTF obj h = (Some arr, h1) \<and> valid_object h obj \<and>
          dims (h1 ! arr) = [n, enum_value numArgs] \<and> n * rowWidth numOutput < 2 ^ 31 \<and>
          (\<forall>j < n. fnc (input_row numArgs (h1 ! arr) j) = Inr (r j) \<and>
             length (r j) = outputLength numOutput) \<longrightarrow>
            (\<exists>v h'. callAnyFunctionOnArray numArgs numOutput fnc uninit h [obj] = Some (Inr v, h') \<and>
               output_buffers numOutput v n h' \<and>
               (\<forall>j < n. output_row h' v j = formatTuple numOutput (r j)))) \<and>
         (PyArray_FROM_OTF obj h = (Some arr, h1) \<and> dims (h1 ! arr) \<noteq> [enum_value numArgs] \<and>
          (\<forall>n. dims (h1 ! arr) \<noteq> [n, enum_value numArgs]) \<longrightarrow>
            callAnyFunctionOnArray numArgs numOutput fnc uninit h [obj] =
              Some (Inl (ValueError (errStrInvalidArrayDim numArgs)), h1))"
proof (intro conjI impI)
  assume "length args = enum_value numArgs \<and> those (map PyFloat_AsDouble args) = Some xs"
  then show "callAnyFunctionOnArray numArgs numOutput fnc uninit h args =
      Some (single_point numOutput fnc xs, h)"
    using flat_call [OF sp] by blast
next
  assume "PyArray_FROM_OTF obj h = (Some arr, h1) \<and> dims (h1 ! arr) = [enum_value numArgs]"
  then show "callAnyFunctionOnArray numArgs numOutput fnc uninit h [obj] =
      Some (single_point numOutput fnc (take (enum_value numArgs) (cells (h1 ! arr))), h1)"
    by (simp add: callAnyFunctionOnArray_def parseTuple_single_object [OF sp] single_point_def
        input_at_def PyArray_GETPTR1_def inputLength_enum_value split: sum.split)
next
  assume "PyArray_FROM_OTF obj h = (Some arr, h1) \<and> valid_object h obj \<and>
          dims (h1 ! arr) = [n, enum_value numArgs] \<and> n * rowWidth numOutput < 2 ^ 31 \<and>
          (\<forall>j < n. fnc (input_row numArgs (h1 ! arr) j) = Inr (r j) \<and>
             length (r j) = outputLength numOutput)"
  then have conv: "PyArray_FROM_OTF obj h = (Some arr, h1)" and valid: "valid_object h obj"
    and dims: "dims (h1 ! arr) = [n, enum_value numArgs]"
    and bound: "n * rowWidth numOutput < 2 ^ 31"
    and rows: "\<forall>j < n. fnc (input_row numArgs (h1 ! arr) j) = Inr (r j)"
    by simp_all
  from batch_ok [OF sp conv valid dims bound rows, of uninit]
  show "\<exists>v h'. callAnyFunctionOnArray numArgs numOutput fnc uninit h [obj] = Some (Inr v, h') \<and>
               output_buffers numOutput v n h' \<and>
               (\<forall>j < n. output_row h' v j = formatTuple numOutput (r j))"
    by blast
next
  assume a: "PyArray_FROM_OTF obj h = (Some arr, h1) \<and> dims (h1 ! arr) \<noteq> [enum_value numArgs] \<and>
          (\<forall>n. dims (h1 ! arr) \<noteq> [n, enum_value numArgs])"
  then have one: "\<not> (length (dims (h1 ! arr)) = 1 \<and> dims (h1 ! arr) ! 0 = enum_value numArgs)"
    by (cases "dims (h1 ! arr)") auto
  from a have two: "\<not> (length (dims (h1 ! arr)) = 2 \<and> dims (h1 ! arr) ! 1 = enum_value numArgs)"
    using dims_two [of "dims (h1 ! arr)"] by metis
  from a one two
  show "callAnyFunctionOnArray numArgs numOutput fnc uninit h [obj] =
      Some (Inl (ValueError (errStrInvalidArrayDim numArgs)), h1)"
    by (auto simp: callAnyFunctionOnArray_def parseTuple_single_object [OF sp])
qed

theorem callAnyFunctionOnArray_shapes_witness:
  "callAnyFunctionOnArray INPUT_VALUE_TRIPLET OUTPUT_VALUE_TRIPLET (\<lambda>p. Inr (map uminus p)) (\<lambda>a i. 0) []
     [PyFloat 1, PyFloat 2, PyFloat 3] = Some (Inr (Tuple [Float (- 1), Float (- 2), Float (- 3)]), []) \<and>
   callAnyFunctionOnArray INPUT_VALUE_TRIPLET OUTPUT_VALUE_TRIPLET (\<lambda>p. Inr (map uminus p)) (\<lambda>a i. 0) []
     [PyObj None (NewArray \<lparr>dims = [3], cells = [1, 2, 3]\<rparr>)] =
     Some (Inr (Tuple [Float (- 1), Float (- 2), Float (- 3)]), [\<lparr>dims = [3], cells = [1, 2, 3]\<rparr>]) \<and>
   (\<exists>v h'. callAnyFunctionOnArray INPUT_VALUE_TRIPLET OUTPUT_VALUE_TRIPLET (\<lambda>p. Inr (map uminus p))
       (\<lambda>a i. 0) [\<lparr>dims = [4, 3], cells = [1, 2, 3, 4, 5, 6, 7, 8, 9, 10, 11, 12]\<rparr>]
       [PyObj None (SameArray 0)] = Some (Inr v, h') \<and>
     output_buffers OUTPUT_VALUE_TRIPLET v 4 h' \<and>
     output_row h' v 3 = Tuple [Float (- 10), Float (- 11), Float (- 12)]) \<and>
   callAnyFunctionOnArray INPUT_VALUE_TRIPLET OUTPUT_VALUE_TRIPLET (\<lambda>p. Inr (map uminus p)) (\<lambda>a i. 0)
     [\<lparr>dims = [4, 4], cells = replicate 16 0\<rparr>] [PyObj None (SameArray 0)] =
     Some (Inl (ValueError ''Input does not contain valid Nx3 array''),
           [\<lparr>dims = [4, 4], cells = replicate 16 0\<rparr>])"
proof -
  let ?fnc = "\<lambda>p :: real list. (Inr (map uminus p) :: string + real list)"
  let ?u = "\<lambda>(a :: nat) (i :: nat). 0 :: real"
  let ?obj = "PyObj None (SameArray 0)"
  let ?h3 = "[\<lparr>dims = [4, 3], cells = [1, 2, 3, 4, 5, 6, 7, 8, 9, 10, 11, 12 :: real]\<rparr>]"
  let ?h4 = "[\<lparr>dims = [4, 4], cells = replicate 16 (0 :: real)\<rparr>]"
  let ?r = "\<lambda>j. map uminus (input_row INPUT_VALUE_TRIPLET (?h3 ! 0) j)"
  have sp: "specialised INPUT_VALUE_TRIPLET OUTPUT_VALUE_TRIPLET" by (simp add: specialised_def)
  note th = callAnyFunctionOnArray_shapes [OF sp]
  have p1: "length [PyFloat 1, PyFloat 2, PyFloat 3] = enum_value INPUT_VALUE_TRIPLET \<and>
      those (map PyFloat_AsDouble [PyFloat 1, PyFloat 2, PyFloat 3]) = Some [1, 2, 3]"
    by (simp add: PyFloat_def)
  from th [where args = "[PyFloat 1, PyFloat 2, PyFloat 3]" and xs = "[1, 2, 3]" and fnc = ?fnc
      and uninit = ?u and h = "[]", THEN conjunct1, rule_format, OF p1]
  have c1: "callAnyFunctionOnArray INPUT_VALUE_TRIPLET OUTPUT_VALUE_TRIPLET ?fnc ?u []
     [PyFloat 1, PyFloat 2, PyFloat 3] = Some (Inr (Tuple [Float (- 1), Float (- 2), Float (- 3)]), [])"
    by (simp add: single_point_def)
  let ?o1 = "PyObj None (NewArray \<lparr>dims = [3], cells = [1, 2, 3]\<rparr>)"
  let ?h1 = "[\<lparr>dims = [3], cells = [1, 2, 3 :: real]\<rparr>]"
  have p2: "PyArray_FROM_OTF ?o1 [] = (Some 0, ?h1) \<and> dims (?h1 ! 0) = [enum_value INPUT_VALUE_TRIPLET]"
    by (simp add: PyArray_FROM_OTF_def)
  from th [where fnc = ?fnc and uninit = ?u and h = "[]" and obj = ?o1 and arr = 0 and ?h1.0 = ?h1,
      THEN conjunct2, THEN conjunct1, rule_format, OF p2]
  have c2: "callAnyFunctionOnArray INPUT_VALUE_TRIPLET OUTPUT_VALUE_TRIPLET ?fnc ?u [] [?o1] =
     Some (Inr (Tuple [Float (- 1), Float (- 2), Float (- 3)]), ?h1)"
    by (simp add: single_point_def)
  have p3: "PyArray_FROM_OTF ?obj ?h3 = (Some 0, ?h3) \<and> valid_object ?h3 ?obj \<and>
      dims (?h3 ! 0) = [4, enum_value INPUT_VALUE_TRIPLET] \<and> 4 * rowWidth OUTPUT_VALUE_TRIPLET < 2 ^ 31 \<and>
      (\<forall>j < 4. ?fnc (input_row INPUT_VALUE_TRIPLET (?h3 ! 0) j) = Inr (?r j) \<and>
         length (?r j) = outputLength OUTPUT_VALUE_TRIPLET)"
    using length_input_row [of _ 4 "?h3 ! 0" INPUT_VALUE_TRIPLET]
    by (simp add: PyArray_FROM_OTF_def valid_object_def)
  from th [where fnc = ?fnc and uninit = ?u and h = ?h3 and obj = ?obj and arr = 0 and ?h1.0 = ?h3
      and n = 4 and r = ?r, THEN conjunct2, THEN conjunct2, THEN conjunct1, rule_format, OF p3]
  obtain v h' where
    call: "callAnyFunctionOnArray INPUT_VALUE_TRIPLET OUTPUT_VALUE_TRIPLET ?fnc ?u ?h3 [?obj] =
      Some (Inr v, h')" and ob: "output_buffers OUTPUT_VALUE_TRIPLET v 4 h'" and
    ro: "\<forall>j < 4. output_row h' v j = formatTuple OUTPUT_VALUE_TRIPLET (?r j)"
    by blast
  from ro [rule_format, of 3] have r3: "output_row h' v 3 = Tuple [Float (- 10), Float (- 11), Float (- 12)]"
    by (simp add: input_row_def)
  have p4: "PyArray_FROM_OTF ?obj ?h4 = (Some 0, ?h4) \<and> dims (?h4 ! 0) \<noteq> [enum_value INPUT_VALUE_TRIPLET] \<and>
      (\<forall>n. dims (?h4 ! 0) \<noteq> [n, enum_value INPUT_VALUE_TRIPLET])"
    by (simp add: PyArray_FROM_OTF_def)
  from th [where fnc = ?fnc and uninit = ?u and h = ?h4 and obj = ?obj and arr = 0 and ?h1.0 = ?h4,
      THEN conjunct2, THEN conjunct2, THEN conjunct2, rule_format, OF p4]
  have c4: "callAnyFunctionOnArray INPUT_VALUE_TRIPLET OUTPUT_VALUE_TRIPLET ?fnc ?u ?h4 [?obj] =
     Some (Inl (ValueError ''Input does not contain valid Nx3 array''), ?h4)"
    by simp
  from c1 c2 call ob r3 c4 show ?thesis by blast
qed

text \<open>
  Claim C5 says that for every batch of N points the triplet-and-sextet shape gives two
  buffers of shapes N by 3 and N by 6. For \<open>N = 2 ^ 32\<close> the shapes are 0 by 3 and 0 by 6.
\<close>

theorem callAnyFunctionOnArray_triplet_and_sextet_narrowed:
  "callAnyFunctionOnArray INPUT_VALUE_TRIPLET OUTPUT_VALUE_TRIPLET_AND_SEXTET
     (\<lambda>p. Inr (p @ p @ p)) (\<lambda>a i. 0)
     [\<lparr>dims = [2 ^ 32, 3], cells = replicate (3 * 2 ^ 32) 1\<rparr>] [PyObj None (SameArray 0)] =
   Some (Inr (Tuple [Array 1, Array 2]),
     [\<lparr>dims = [2 ^ 32, 3], cells = replicate (3 * 2 ^ 32) 1\<rparr>,
      \<lparr>dims = [0, 3], cells = []\<rparr>, \<lparr>dims = [0, 6], cells = []\<rparr>])"
  by (simp add: callAnyFunctionOnArray_def PyArg_ParseTuple_d_def PyArray_FROM_OTF_def
      int_of_npy_intp_def PyArray_SimpleNew_def fnc_loop.simps)

text \<open>
  For every batch of N points with \<open>N * 6 < 2 ^ 31\<close> on which the function returns nine
  values per point, the triplet-and-sextet shape returns a pair of two arrays at different
  addresses, of shapes N by 3 and N by 6; row \<open>i\<close> of the first holds the first three
  values and row \<open>i\<close> of the second the last six values of the result for point \<open>i\<close>. For
  a single point, given as flat arguments or as a one-dimensional array, it returns a pair
  of two tuples, of the first three and of the last six values.
\<close>

theorem callAnyFunctionOnArray_triplet_and_sextet:
  assumes sp: "specialised numArgs OUTPUT_VALUE_TRIPLET_AND_SEXTET"
  shows "(PyArray_FROM_OTF obj h = (Some arr, h1) \<and> valid_object h obj \<and>
          dims (h1 ! arr) = [n, enum_value numArgs] \<and> n * 6 < 2 ^ 31 \<and>
          (\<forall>j < n. fnc (input_row numArgs (h1 ! arr) j) = Inr (r j) \<and> length (r j) = 9) \<longrightarrow>
          (\<exists>a1 a2 h'.
             callAnyFunctionOnArray numArgs OUTPUT_VALUE_TRIPLET_AND_SEXTET fnc uninit h [obj] =
               Some (Inr (Tuple [Array a1, Array a2]), h') \<and>
             a1 \<noteq> a2 \<and>
             dims (h' ! a1) = [n, 3] \<and> length (cells (h' ! a1)) = n * 3 \<and>
             dims (h' ! a2) = [n, 6] \<and> length (cells (h' ! a2)) = n * 6 \<and>
             (\<forall>j < n. (\<forall>d < 3. cells (h' ! a1) ! (j * 3 + d) = r j ! d) \<and>
                      (\<forall>d < 6. cells (h' ! a2) ! (j * 6 + d) = r j ! (d + 3))))) \<and>
         (length args = enum_value numArgs \<and> those (map PyFloat_AsDouble args) = Some xs \<and>
          fnc xs = Inr result \<and> length result = 9 \<longrightarrow>
          callAnyFunctionOnArray numArgs OUTPUT_VALUE_TRIPLET_AND_SEXTET fnc uninit h args =
            Some (Inr (Tuple [Tuple [Float (result ! 0), Float (result ! 1), Float (result ! 2)],
                              Tuple [Float (result ! 3), Float (result ! 4), Float (result ! 5),
                                     Float (result ! 6), Float (result ! 7), Float (result ! 8)]]), h)) \<and>
         (PyArray_FROM_OTF obj h = (Some arr, h1) \<and> dims (h1 ! arr) = [enum_value numArgs] \<and>
          fnc (take (enum_value numArgs) (cells (h1 ! arr))) = Inr result \<and> length result = 9 \<longrightarrow>
          callAnyFunctionOnArray numArgs OUTPUT_VALUE_TRIPLET_AND_SEXTET fnc uninit h [obj] =
            Some (Inr (Tuple [Tuple [Float (result ! 0), Float (result ! 1), Float (result ! 2)],
                              Tuple [Float (result ! 3), Float (result ! 4), Float (result ! 5),
                                     Float (result ! 6), Float (result ! 7), Float (result ! 8)]]), h1))"
proof (intro conjI impI)
  assume a: "PyArray_FROM_OTF obj h = (Some arr, h1) \<and> valid_object h obj \<and>
          dims (h1 ! arr) = [n, enum_value numArgs] \<and> n * 6 < 2 ^ 31 \<and>
          (\<forall>j < n. fnc (input_row numArgs (h1 ! arr) j) = Inr (r j) \<and> length (r j) = 9)"
  then have conv: "PyArray_FROM_OTF obj h = (Some arr, h1)" and valid: "valid_object h obj"
    and dims: "dims (h1 ! arr) = [n, enum_value numArgs]"
    and bound: "n * rowWidth OUTPUT_VALUE_TRIPLET_AND_SEXTET < 2 ^ 31"
    and rows: "\<forall>j < n. fnc (input_row numArgs (h1 ! arr) j) = Inr (r j)"
    by simp_all
  from batch_ok [OF sp conv valid dims bound rows, of uninit] obtain v h' where
    call: "callAnyFunctionOnArray numArgs OUTPUT_VALUE_TRIPLET_AND_SEXTET fnc uninit h [obj] =
             Some (Inr v, h')" and
    ob: "output_buffers OUTPUT_VALUE_TRIPLET_AND_SEXTET v n h'" and
    ro: "\<forall>j < n. output_row h' v j = formatTuple OUTPUT_VALUE_TRIPLET_AND_SEXTET (r j)"
    by blast
  from ob obtain a1 a2 where v: "v = Tuple [Array a1, Array a2]" and ne: "a1 \<noteq> a2"
    and d1: "dims (h' ! a1) = [n, 3]" and l1: "length (cells (h' ! a1)) = n * 3"
    and d2: "dims (h' ! a2) = [n, 6]" and l2: "length (cells (h' ! a2)) = n * 6"
    by (auto elim: output_buffers.elims)
  have "(\<forall>d < 3. cells (h' ! a1) ! (j * 3 + d) = r j ! d) \<and>
        (\<forall>d < 6. cells (h' ! a2) ! (j * 6 + d) = r j ! (d + 3))" if "j < n" for j
    using ro [rule_format, OF that] d1 d2
    by (simp add: v formatTuple_TRIPLET_AND_SEXTET_map del: formatTuple.simps)
  with call v ne d1 l1 d2 l2
  show "\<exists>a1 a2 h'.
           callAnyFunctionOnArray numArgs OUTPUT_VALUE_TRIPLET_AND_SEXTET fnc uninit h [obj] =
             Some (Inr (Tuple [Array a1, Array a2]), h') \<and>
           a1 \<noteq> a2 \<and>
           dims (h' ! a1) = [n, 3] \<and> length (cells (h' ! a1)) = n * 3 \<and>
           dims (h' ! a2) = [n, 6] \<and> length (cells (h' ! a2)) = n * 6 \<and>
           (\<forall>j < n. (\<forall>d < 3. cells (h' ! a1) ! (j * 3 + d) = r j ! d) \<and>
                    (\<forall>d < 6. cells (h' ! a2) ! (j * 6 + d) = r j ! (d + 3)))"
    by blast
next
  assume "length args = enum_value numArgs \<and> those (map PyFloat_AsDouble args) = Some xs \<and>
          fnc xs = Inr result \<and> length result = 9"
  then show "callAnyFunctionOnArray numArgs OUTPUT_VALUE_TRIPLET_AND_SEXTET fnc uninit h args =
            Some (Inr (Tuple [Tuple [Float (result ! 0), Float (result ! 1), Float (result ! 2)],
                              Tuple [Float (result ! 3), Float (result ! 4), Float (result ! 5),
                                     Float (result ! 6), Float (result ! 7), Float (result ! 8)]]), h)"
    using flat_call [OF sp, of args xs fnc uninit h] by (simp add: single_point_def)
next
  assume "PyArray_FROM_OTF obj h = (Some arr, h1) \<and> dims (h1 ! arr) = [enum_value numArgs] \<and>
          fnc (take (enum_value numArgs) (cells (h1 ! arr))) = Inr result \<and> length result = 9"
  then show "callAnyFunctionOnArray numArgs OUTPUT_VALUE_TRIPLET_AND_SEXTET fnc uninit h [obj] =
            Some (Inr (Tuple [Tuple [Float (result ! 0), Float (result ! 1), Float (result ! 2)],
                              Tuple [Float (result ! 3), Float (result ! 4), Float (result ! 5),
                                     Float (result ! 6), Float (result ! 7), Float (result ! 8)]]), h1)"
    by (simp add: callAnyFunctionOnArray_def parseTuple_single_object [OF sp]
        input_at_def PyArray_GETPTR1_def inputLength_enum_value)
qed

theorem callAnyFunctionOnArray_triplet_and_sextet_witness:
  "(\<exists>a1 a2 h'.
      callAnyFunctionOnArray INPUT_VALUE_TRIPLET OUTPUT_VALUE_TRIPLET_AND_SEXTET
        (\<lambda>p. Inr (p @ map uminus p @ p)) (\<lambda>a i. 0)
        [\<lparr>dims = [2, 3], cells = [1, 2, 3, 4, 5, 6]\<rparr>] [PyObj None (SameArray 0)] =
        Some (Inr (Tuple [Array a1, Array a2]), h') \<and>
      a1 \<noteq> a2 \<and> dims (h' ! a1) = [2, 3] \<and> dims (h' ! a2) = [2, 6] \<and>
      cells (h' ! a1) ! (1 * 3 + 2) = 6 \<and> cells (h' ! a2) ! (1 * 6 + 0) = - 4) \<and>
   callAnyFunctionOnArray INPUT_VALUE_TRIPLET OUTPUT_VALUE_TRIPLET_AND_SEXTET
     (\<lambda>p. Inr (p @ map uminus p @ p)) (\<lambda>a i. 0) [] [PyFloat 1, PyFloat 2, PyFloat 3] =
     Some (Inr (Tuple [Tuple [Float 1, Float 2, Float 3],
                       Tuple [Float (- 1), Float (- 2), Float (- 3), Float 1, Float 2, Float 3]]), []) \<and>
   callAnyFunctionOnArray INPUT_VALUE_TRIPLET OUTPUT_VALUE_TRIPLET_AND_SEXTET
     (\<lambda>p. Inr (p @ map uminus p @ p)) (\<lambda>a i. 0)
     [\<lparr>dims = [3], cells = [1, 2, 3]\<rparr>] [PyObj None (SameArray 0)] =
     Some (Inr (Tuple [Tuple [Float 1, Float 2, Float 3],
                       Tuple [Float (- 1), Float (- 2), Float (- 3), Float 1, Float 2, Float 3]]),
           [\<lparr>dims = [3], cells = [1, 2, 3]\<rparr>])"
proof -
  let ?h = "[\<lparr>dims = [2, 3], cells = [1, 2, 3, 4, 5, 6 :: real]\<rparr>]"
  let ?g = "[\<lparr>dims = [3], cells = [1, 2, 3 :: real]\<rparr>]"
  let ?obj = "PyObj None (SameArray 0)"
  let ?fnc = "\<lambda>p :: real list. (Inr (p @ map uminus p @ p) :: string + real list)"
  let ?r = "\<lambda>j. input_row INPUT_VALUE_TRIPLET (?h ! 0) j @
      map uminus (input_row INPUT_VALUE_TRIPLET (?h ! 0) j) @ input_row INPUT_VALUE_TRIPLET (?h ! 0) j"
  have sp: "specialised INPUT_VALUE_TRIPLET OUTPUT_VALUE_TRIPLET_AND_SEXTET"
    by (simp add: specialised_def)
  note th = callAnyFunctionOnArray_triplet_and_sextet [OF sp]
  have pre: "PyArray_FROM_OTF ?obj ?h = (Some 0, ?h) \<and> valid_object ?h ?obj \<and>
      dims (?h ! 0) = [2, enum_value INPUT_VALUE_TRIPLET] \<and> (2 :: nat) * 6 < 2 ^ 31 \<and>
      (\<forall>j < 2. ?fnc (input_row INPUT_VALUE_TRIPLET (?h ! 0) j) = Inr (?r j) \<and> length (?r j) = 9)"
    using length_input_row [of _ 2 "?h ! 0" INPUT_VALUE_TRIPLET]
    by (simp add: PyArray_FROM_OTF_def valid_object_def)
  from th [where obj = ?obj and h = ?h and arr = 0 and ?h1.0 = ?h and n = 2 and fnc = ?fnc and r = ?r
      and uninit = "\<lambda>a i. 0", THEN conjunct1, rule_format, OF pre]
  obtain a1 a2 h' where
    call: "callAnyFunctionOnArray INPUT_VALUE_TRIPLET OUTPUT_VALUE_TRIPLET_AND_SEXTET ?fnc (\<lambda>a i. 0)
        ?h [?obj] = Some (Inr (Tuple [Array a1, Array a2]), h')" and
    ne: "a1 \<noteq> a2" and d1: "dims (h' ! a1) = [2, 3]" and d2: "dims (h' ! a2) = [2, 6]" and
    ro: "\<forall>j < 2. (\<forall>d < 3. cells (h' ! a1) ! (j * 3 + d) = ?r j ! d) \<and>
                 (\<forall>d < 6. cells (h' ! a2) ! (j * 6 + d) = ?r j ! (d + 3))"
    by blast
  have j1: "(1 :: nat) < 2" and lt2: "(2 :: nat) < 3" and lt0: "(0 :: nat) < 6" by simp_all
  from ro j1 lt2 have c1: "cells (h' ! a1) ! (1 * 3 + 2) = ?r 1 ! 2" by blast
  from ro j1 lt0 have c2: "cells (h' ! a2) ! (1 * 6 + 0) = ?r 1 ! (0 + 3)" by blast
  have v1: "cells (h' ! a1) ! (1 * 3 + 2) = 6" and v2: "cells (h' ! a2) ! (1 * 6 + 0) = - 4"
    using c1 c2 by (simp_all add: input_row_def)
  have pre2: "length [PyFloat 1, PyFloat 2, PyFloat 3] = enum_value INPUT_VALUE_TRIPLET \<and>
      those (map PyFloat_AsDouble [PyFloat 1, PyFloat 2, PyFloat 3]) = Some [1, 2, 3] \<and>
      ?fnc [1, 2, 3] = Inr [1, 2, 3, - 1, - 2, - 3, 1, 2, 3] \<and>
      length [1, 2, 3, - 1, - 2, - 3, 1, 2, 3 :: real] = 9"
    by (simp add: PyFloat_def)
  from th [where fnc = ?fnc and args = "[PyFloat 1, PyFloat 2, PyFloat 3]" and xs = "[1, 2, 3]"
      and result = "[1, 2, 3, - 1, - 2, - 3, 1, 2, 3]" and uninit = "\<lambda>a i. 0" and h = "[]",
      THEN conjunct2, THEN conjunct1, rule_format, OF pre2]
  have flat: "callAnyFunctionOnArray INPUT_VALUE_TRIPLET OUTPUT_VALUE_TRIPLET_AND_SEXTET ?fnc (\<lambda>a i. 0) []
      [PyFloat 1, PyFloat 2, PyFloat 3] =
      Some (Inr (Tuple [Tuple [Float 1, Float 2, Float 3],
                       Tuple [Float (- 1), Float (- 2), Float (- 3), Float 1, Float 2, Float 3]]), [])"
    by simp
  have pre3: "PyArray_FROM_OTF ?obj ?g = (Some 0, ?g) \<and>
      dims (?g ! 0) = [enum_value INPUT_VALUE_TRIPLET] \<and>
      ?fnc (take (enum_value INPUT_VALUE_TRIPLET) (cells (?g ! 0))) =
        Inr [1, 2, 3, - 1, - 2, - 3, 1, 2, 3] \<and>
      length [1, 2, 3, - 1, - 2, - 3, 1, 2, 3 :: real] = 9"
    by (simp add: PyArray_FROM_OTF_def)
  from th [where fnc = ?fnc and obj = ?obj and h = ?g and arr = 0 and ?h1.0 = ?g
      and result = "[1, 2, 3, - 1, - 2, - 3, 1, 2, 3]" and uninit = "\<lambda>a i. 0",
      THEN conjunct2, THEN conjunct2, rule_format, OF pre3]
  have one: "callAnyFunctionOnArray INPUT_VALUE_TRIPLET OUTPUT_VALUE_TRIPLET_AND_SEXTET ?fnc (\<lambda>a i. 0) ?g
      [?obj] =
      Some (Inr (Tuple [Tuple [Float 1, Float 2, Float 3],
                       Tuple [Float (- 1), Float (- 2), Float (- 3), Float 1, Float 2, Float 3]]), ?g)"
    by simp
  from call ne d1 d2 v1 v2 flat one show ?thesis by blast
qed

text \<open>
  Claim C6: when the computation function raises at one of the points the call evaluates
  (point \<open>k\<close>, the first at which it raises), every outcome of the call is the
  \<^verbatim>\<open>ValueError\<close> of the handler with the text of that exception, so no output buffer is
  returned; and the call has this outcome whenever \<open>k\<close> times the widest output row is at
  most \<open>2 ^ 31\<close> (always, for a single point). The call has no outcome only where the C++
  has undefined behaviour, that is, when an index \<^verbatim>\<open>index*3+d\<close> or \<^verbatim>\<open>index*6+d\<close> overflows
  before point \<open>k\<close> is reached.
\<close>

theorem callAnyFunctionOnArray_exception:
  assumes sp: "specialised numArgs numOutput"
    and valid: "\<forall>obj \<in> set args. valid_object h obj"
    and k: "k < length (evaluated_points numArgs h args)"
    and raise: "fnc (evaluated_points numArgs h args ! k) = Inl e"
    and before: "\<forall>j < k. fnc (evaluated_points numArgs h args ! j) = Inr (r j)"
  shows "(callAnyFunctionOnArray numArgs numOutput fnc uninit h args = Some (res, h') \<longrightarrow>
            res = Inl (ValueError (''Exception occured: '' @ e))) \<and>
         (k * rowWidth numOutput \<le> 2 ^ 31 \<longrightarrow>
            (\<exists>h''. callAnyFunctionOnArray numArgs numOutput fnc uninit h args =
               Some (Inl (ValueError (''Exception occured: '' @ e)), h'')))"
proof (cases "parseTuple numArgs args")
  case (Some input)
  with k raise show ?thesis
    by (auto simp: evaluated_points_def callAnyFunctionOnArray_def caught_def)
next
  case None
  note so = specialised_out [OF sp]
  show ?thesis
  proof (cases "\<exists>obj. args = [obj]")
    case False
    with None k show ?thesis by (auto simp: evaluated_points_def split: list.splits)
  next
    case True
    then obtain obj where args: "args = [obj]" by blast
    obtain ro h1 where conv: "PyArray_FROM_OTF obj h = (ro, h1)" by (cases "PyArray_FROM_OTF obj h")
    show ?thesis
    proof (cases ro)
      case None
      with \<open>parseTuple numArgs args = None\<close> k show ?thesis
        by (simp add: evaluated_points_def args conv)
    next
      case (Some arr)
      note conv' = conv [unfolded Some]
      have vo: "valid_object h obj" using valid args by simp
      from PyArray_FROM_OTF_valid [OF conv' vo] have arr: "arr < length h1" by simp
      let ?one = "length (dims (h1 ! arr)) = 1 \<and> dims (h1 ! arr) ! 0 = enum_value numArgs"
      let ?two = "length (dims (h1 ! arr)) = 2 \<and> dims (h1 ! arr) ! 1 = enum_value numArgs"
      show ?thesis
      proof (cases ?one)
        case True
        with \<open>parseTuple numArgs args = None\<close> k raise show ?thesis
          by (auto simp: evaluated_points_def callAnyFunctionOnArray_def args conv' caught_def)
      next
        case one: False
        show ?thesis
        proof (cases ?two)
          case False
          with one \<open>parseTuple numArgs args = None\<close> k show ?thesis
            by (auto simp: evaluated_points_def args conv' split: if_splits)
        next
          case True
          let ?N = "dims (h1 ! arr) ! 0"
          let ?numpt = "int_of_npy_intp ?N"
          let ?row = "\<lambda>j. input_at numArgs (PyArray_GETPTR2 (h1 ! arr) (int j) 0)"
          have ps: "evaluated_points numArgs h args = map ?row [0..<nat ?numpt]"
            using one True \<open>parseTuple numArgs args = None\<close>
            by (auto simp: evaluated_points_def args conv')
          define n where "n = nat ?numpt"
          have kn: "k < n" using k ps by (simp add: n_def)
          then have numpt: "?numpt = int n" by (simp add: n_def)
          have dims: "dims (h1 ! arr) = [?N, enum_value numArgs]"
            using True dims_two [of "dims (h1 ! arr)"] by simp
          have rk: "fnc (?row k) = Inl e" using raise ps kn by (simp add: n_def)
          have rb: "\<forall>j < k. fnc (?row j) = Inr (r j)" using before ps kn by (simp add: n_def)
          from allocOutputArr_ok [OF so, of uninit n h1] obtain v h2 where
            al: "allocOutputArr numOutput uninit (int n) h1 = (Some v, h2)" and
            fresh: "\<forall>a \<in> set (arrays_of v). length h1 \<le> a" and
            fr2: "\<forall>b < length h1. h2 ! b = h1 ! b"
            by blast
          have notin: "arr \<notin> (case Some v of None \<Rightarrow> {} | Some v \<Rightarrow> set (arrays_of v))"
            using fresh arr by auto
          have h2arr: "h2 ! arr = h1 ! arr" using fr2 arr by simp
          have part1: "res = Inl (ValueError (''Exception occured: '' @ e))"
            if c: "callAnyFunctionOnArray numArgs numOutput fnc uninit h args = Some (res, h')"
          proof -
            from c obtain x where
              l: "fnc_loop numArgs numOutput fnc arr (int n) (Some v) (int 0) h2 = Some (x, h')" and
              res: "res = (case x of Some e \<Rightarrow> caught e | None \<Rightarrow> Inr v)"
              using one True \<open>parseTuple numArgs args = None\<close>
              by (auto simp: callAnyFunctionOnArray_def args conv' numpt al
                  split: option.splits if_splits)
            have "x = Some e"
              using fnc_loop_first_raise [OF so notin _ kn _ _ l, of e r] rk rb
              by (simp add: h2arr)
            with res show ?thesis by (simp add: caught_def)
          qed
          have part2: "\<exists>h''. callAnyFunctionOnArray numArgs numOutput fnc uninit h args =
              Some (Inl (ValueError (''Exception occured: '' @ e)), h'')"
            if bound: "k * rowWidth numOutput \<le> 2 ^ 31"
          proof -
            have rows: "\<forall>j < k. fnc (input_row numArgs (h1 ! arr) j) = Inr (r j)"
              using rb True by (simp add: input_at_row)
            from batch_prefix [OF sp conv' vo dims numpt bound less_imp_le [OF kn] rows, of uninit]
            obtain v' h3 where
              call: "callAnyFunctionOnArray numArgs numOutput fnc uninit h [obj] =
                (case fnc_loop numArgs numOutput fnc arr (int n) (Some v') (int k) h3 of
                   None \<Rightarrow> None
                 | Some (Some e, h3) \<Rightarrow> Some (caught e, h3)
                 | Some (None, h3) \<Rightarrow> Some (Inr v', h3))" and
              fr3: "\<forall>b < length h1. h3 ! b = h1 ! b"
              by blast
            have "fnc (input_at numArgs (PyArray_GETPTR2 (h3 ! arr) (int k) 0)) = Inl e"
              using rk fr3 arr by simp
            then have "fnc_loop numArgs numOutput fnc arr (int n) (Some v') (int k) h3 = Some (Some e, h3)"
              using kn by (intro fnc_loop_raise_here)
            with call show ?thesis
              by (simp add: args caught_def)
          qed
          from part1 part2 show ?thesis by blast
        qed
      qed
    qed
  qed
qed

theorem callAnyFunctionOnArray_exception_witness:
  "\<exists>h''. callAnyFunctionOnArray INPUT_VALUE_TRIPLET OUTPUT_VALUE_TRIPLET
      (\<lambda>p. if p ! 0 = 4 then Inl ''bad point'' else Inr (map uminus p)) (\<lambda>a i. 0)
      [\<lparr>dims = [2, 3], cells = [1, 2, 3, 4, 5, 6]\<rparr>] [PyObj None (SameArray 0)] =
    Some (Inl (ValueError ''Exception occured: bad point''), h'')"
proof -
  let ?h = "[\<lparr>dims = [2, 3], cells = [1, 2, 3, 4, 5, 6 :: real]\<rparr>]"
  let ?args = "[PyObj None (SameArray 0)]"
  let ?fnc = "\<lambda>p :: real list. if p ! 0 = 4 then Inl ''bad point'' else (Inr (map uminus p) :: string + real list)"
  have sp: "specialised INPUT_VALUE_TRIPLET OUTPUT_VALUE_TRIPLET" by (simp add: specialised_def)
  have valid: "\<forall>obj \<in> set ?args. valid_object ?h obj" by (simp add: valid_object_def)
  have ps: "evaluated_points INPUT_VALUE_TRIPLET ?h ?args = [[1, 2, 3], [4, 5, 6]]"
    by (simp add: evaluated_points_def PyArg_ParseTuple_d_def PyArray_FROM_OTF_def
        int_of_npy_intp_def input_at_def PyArray_GETPTR2_def upt_0_2)
  have k: "1 < length (evaluated_points INPUT_VALUE_TRIPLET ?h ?args)" by (simp add: ps)
  have raise: "?fnc (evaluated_points INPUT_VALUE_TRIPLET ?h ?args ! 1) = Inl ''bad point''"
    by (simp add: ps)
  have before: "\<forall>j < 1. ?fnc (evaluated_points INPUT_VALUE_TRIPLET ?h ?args ! j) = Inr ([- 1, - 2, - 3])"
    by (simp add: ps)
  have bound: "1 * rowWidth OUTPUT_VALUE_TRIPLET \<le> 2 ^ 31"
    by simp
  from callAnyFunctionOnArray_exception [OF sp valid k raise before, of "\<lambda>a i. 0", THEN conjunct2] bound
  show ?thesis by simp
qed

text \<open>
  Claim C9 says that no dispatcher call changes the input array of the caller. The position
  of an output cell, \<^verbatim>\<open>index*3+d\<close>, is computed in \<^verbatim>\<open>int\<close>. With 715827883 rows of three
  numbers and triplet output the position of the last cell, \<open>715827882 * 3 + 2 = 2 ^ 31\<close>,
  is not an \<^verbatim>\<open>int\<close>: from there on the C++ has no defined behaviour (where the sum wraps
  around, the write goes \<open>2 ^ 31\<close> cells before the start of the output buffer), so the call
  has no outcome and nothing is guaranteed about the arrays that existed before it.
\<close>

theorem callAnyFunctionOnArray_index_overflow:
  "callAnyFunctionOnArray INPUT_VALUE_TRIPLET OUTPUT_VALUE_TRIPLET (\<lambda>p. Inr [0, 0, 0]) uninit
     [\<lparr>dims = [715827883, 3], cells = replicate (3 * 715827883) 1\<rparr>] [PyObj None (SameArray 0)] = None"
proof -
  let ?h = "[\<lparr>dims = [715827883, 3], cells = replicate (3 * 715827883) (1 :: real)\<rparr>]"
  let ?obj = "PyObj None (SameArray 0)"
  have sp: "specialised INPUT_VALUE_TRIPLET OUTPUT_VALUE_TRIPLET" by (simp add: specialised_def)
  have conv: "PyArray_FROM_OTF ?obj ?h = (Some 0, ?h)" by (simp add: PyArray_FROM_OTF_def)
  have valid: "valid_object ?h ?obj" by (simp add: valid_object_def)
  have dims: "dims (?h ! 0) = [715827883, enum_value INPUT_VALUE_TRIPLET]" by simp
  have numpt: "int_of_npy_intp 715827883 = int 715827883" by (simp add: int_of_npy_intp_def)
  show ?thesis
    by (rule batch_overflow [OF sp conv valid dims numpt, of 715827882 _ "\<lambda>j. [0, 0, 0]"]) simp_all
qed

text \<open>
  Whatever a call returns, every array that existed before the call, the input array among
  them, has the contents it had; the numbers of a flat argument list are values and cannot
  change. The dispatcher writes to the arrays it allocates only, and the computation
  function receives its input as \<^verbatim>\<open>const double[]\<close>.
\<close>

theorem callAnyFunctionOnArray_frame:
  assumes "specialised numArgs numOutput"
    and "callAnyFunctionOnArray numArgs numOutput fnc uninit h args = Some (res, h')"
  shows "length h \<le> length h' \<and> (\<forall>b < length h. h' ! b = h ! b)"
proof (cases "parseTuple numArgs args")
  case (Some input)
  with assms(2) show ?thesis
    by (auto simp: callAnyFunctionOnArray_def split: sum.splits)
next
  case None
  note so = specialised_out [OF assms(1)]
  show ?thesis
  proof (cases "\<exists>obj. args = [obj]")
    case False
    with None assms(2) show ?thesis
      by (auto simp: callAnyFunctionOnArray_def split: list.splits)
  next
    case True
    then obtain obj where args: "args = [obj]" by blast
    obtain ro h1 where conv: "PyArray_FROM_OTF obj h = (ro, h1)" by (cases "PyArray_FROM_OTF obj h")
    note fr1 = PyArray_FROM_OTF_frame [OF conv]
    show ?thesis
    proof (cases ro)
      case None
      with assms(2) \<open>parseTuple numArgs args = None\<close> fr1 show ?thesis
        by (auto simp: callAnyFunctionOnArray_def args conv)
    next
      case (Some arr)
      let ?numpt = "int_of_npy_intp (dims (h1 ! arr) ! 0)"
      obtain resultObj h2 where al: "allocOutputArr numOutput uninit ?numpt h1 = (resultObj, h2)"
        by (cases "allocOutputArr numOutput uninit ?numpt h1")
      note fr2 = allocOutputArr_frame [OF al so]
      consider (single) "h' = h1"
        | (batch) x where "fnc_loop numArgs numOutput fnc arr ?numpt resultObj 0 h2 = Some (x, h')"
        using assms(2) \<open>parseTuple numArgs args = None\<close>
        by (auto simp: callAnyFunctionOnArray_def args conv Some al Let_def
            split: if_splits sum.splits option.splits prod.splits)
      then show ?thesis
      proof cases
        case single
        with fr1 show ?thesis by simp
      next
        case batch
        note fr3 = fnc_loop_frame [OF batch so]
        have "h' ! b = h ! b" if "b < length h" for b
        proof -
          have "b < length h1" using that fr1 by simp
          then have "b \<notin> (case resultObj of None \<Rightarrow> {} | Some v \<Rightarrow> set (arrays_of v))"
            using fr2 by (auto split: option.splits)
          with fr3 have "h' ! b = h2 ! b" by simp
          with fr2 fr1 \<open>b < length h1\<close> that show ?thesis by simp
        qed
        moreover have "length h \<le> length h'" using fr1 fr2 fr3 by simp
        ultimately show ?thesis by simp
      qed
    qed
  qed
qed

theorem callAnyFunctionOnArray_frame_witness:
  "callAnyFunctionOnArray INPUT_VALUE_TRIPLET OUTPUT_VALUE_SINGLE (\<lambda>p. Inr [p ! 0 + p ! 1 + p ! 2])
     (\<lambda>a i. 0) [\<lparr>dims = [2, 3], cells = [1, 2, 3, 4, 5, 6]\<rparr>] [PyObj None (SameArray 0)] =
     Some (Inr (Array 1), [\<lparr>dims = [2, 3], cells = [1, 2, 3, 4, 5, 6]\<rparr>, \<lparr>dims = [2], cells = [6, 15]\<rparr>]) \<and>
   [\<lparr>dims = [2, 3], cells = [1, 2, 3, 4, 5, 6]\<rparr>, \<lparr>dims = [2], cells = [6, 15 :: real]\<rparr>] ! 0 =
     [\<lparr>dims = [2, 3], cells = [1, 2, 3, 4, 5, 6]\<rparr>] ! 0"
proof -
  let ?h = "[\<lparr>dims = [2, 3], cells = [1, 2, 3, 4, 5, 6 :: real]\<rparr>]"
  let ?h' = "[\<lparr>dims = [2, 3], cells = [1, 2, 3, 4, 5, 6 :: real]\<rparr>, \<lparr>dims = [2], cells = [6, 15 :: real]\<rparr>]"
  have sp: "specialised INPUT_VALUE_TRIPLET OUTPUT_VALUE_SINGLE" by (simp add: specialised_def)
  have call: "callAnyFunctionOnArray INPUT_VALUE_TRIPLET OUTPUT_VALUE_SINGLE
      (\<lambda>p. Inr [p ! 0 + p ! 1 + p ! 2]) (\<lambda>a i. 0) ?h [PyObj None (SameArray 0)] =
      Some (Inr (Array 1), ?h')"
    by (simp add: callAnyFunctionOnArray_def PyArg_ParseTuple_d_def PyArray_FROM_OTF_def
        int_of_npy_intp_def PyArray_SimpleNew_def fnc_loop.simps input_at_def PyArray_GETPTR2_def
        store_def upt_0_2)
  from callAnyFunctionOnArray_frame [OF sp call] have "?h' ! 0 = ?h ! 0" by simp
  with call show ?thesis by simp
qed

text \<open>
  When the arguments are valid objects and the number of points times the widest output
  row is at most \<open>2 ^ 31\<close>, the call has an outcome, whatever the computation function
  does.
\<close>

lemma callAnyFunctionOnArray_total:
  assumes sp: "specialised numArgs numOutput"
    and valid: "\<forall>obj \<in> set args. valid_object h obj"
    and bound: "length (evaluated_points numArgs h args) * rowWidth numOutput \<le> 2 ^ 31"
  shows "\<exists>res h'. callAnyFunctionOnArray numArgs numOutput fnc uninit h args = Some (res, h')"
proof (cases "parseTuple numArgs args")
  case (Some input)
  then show ?thesis by (simp add: callAnyFunctionOnArray_def split: sum.split)
next
  case None
  show ?thesis
  proof (cases "\<exists>obj. args = [obj]")
    case False
    with None show ?thesis by (auto simp: callAnyFunctionOnArray_def split: list.splits)
  next
    case True
    then obtain obj where args: "args = [obj]" by blast
    obtain ro h1 where conv: "PyArray_FROM_OTF obj h = (ro, h1)" by (cases "PyArray_FROM_OTF obj h")
    show ?thesis
    proof (cases ro)
      case None
      with \<open>parseTuple numArgs args = None\<close> show ?thesis
        by (simp add: callAnyFunctionOnArray_def args conv)
    next
      case (Some arr)
      note conv' = conv [unfolded Some]
      have vo: "valid_object h obj" using valid args by simp
      let ?one = "length (dims (h1 ! arr)) = 1 \<and> dims (h1 ! arr) ! 0 = enum_value numArgs"
      let ?two = "length (dims (h1 ! arr)) = 2 \<and> dims (h1 ! arr) ! 1 = enum_value numArgs"
      show ?thesis
      proof (cases "\<not> ?one \<and> ?two")
        case False
        with \<open>parseTuple numArgs args = None\<close> show ?thesis
          by (auto simp: callAnyFunctionOnArray_def args conv' split: sum.split)
      next
        case True
        then obtain N where dims: "dims (h1 ! arr) = [N, enum_value numArgs]"
          using dims_two_ex [of "dims (h1 ! arr)"] by blast
        have "evaluated_points numArgs h args =
            map (\<lambda>j. input_at numArgs (PyArray_GETPTR2 (h1 ! arr) (int j) 0))
              [0..<nat (int_of_npy_intp N)]"
          using True \<open>parseTuple numArgs args = None\<close>
          by (auto simp: evaluated_points_def args conv' dims)
        with bound have "nat (int_of_npy_intp N) * rowWidth numOutput \<le> 2 ^ 31"
          by simp
        from batch_total [OF sp conv' vo dims this] show ?thesis by (simp add: args)
      qed
    qed
  qed
qed

text \<open>
  Claim C10: a two-dimensional array with no rows whose second dimension is the arity is
  accepted: the call returns the output buffers for 0 points, each with an empty buffer,
  and the result is the same for every computation function, which is never invoked.
\<close>

theorem callAnyFunctionOnArray_no_rows:
  assumes "specialised numArgs numOutput"
    and "PyArray_FROM_OTF obj h = (Some arr, h1)"
    and "dims (h1 ! arr) = [0, enum_value numArgs]"
  shows "\<exists>v h'. (\<forall>fnc. callAnyFunctionOnArray numArgs numOutput fnc uninit h [obj] = Some (Inr v, h')) \<and>
           output_buffers numOutput v 0 h' \<and> (\<forall>a \<in> set (arrays_of v). cells (h' ! a) = [])"
proof -
  from allocOutputArr_ok [OF specialised_out [OF assms(1)], of uninit 0 h1] obtain v h2 where
    al: "allocOutputArr numOutput uninit 0 h1 = (Some v, h2)" and
    ob: "output_buffers numOutput v 0 h2"
    by auto
  have "callAnyFunctionOnArray numArgs numOutput fnc uninit h [obj] = Some (Inr v, h2)" for fnc
    by (simp add: callAnyFunctionOnArray_def parseTuple_single_object [OF assms(1)] assms(2,3)
        int_of_npy_intp_def al fnc_loop.simps)
  moreover have "\<forall>a \<in> set (arrays_of v). cells (h2 ! a) = []"
    using ob by (auto elim!: output_buffers.elims)
  ultimately show ?thesis using ob by blast
qed

theorem callAnyFunctionOnArray_no_rows_witness:
  "\<forall>fnc. callAnyFunctionOnArray INPUT_VALUE_TRIPLET OUTPUT_VALUE_TRIPLET_AND_SEXTET fnc (\<lambda>a i. 0) []
      [PyObj None (NewArray \<lparr>dims = [0, 3], cells = []\<rparr>)] =
    Some (Inr (Tuple [Array 1, Array 2]),
      [\<lparr>dims = [0, 3], cells = []\<rparr>, \<lparr>dims = [0, 3], cells = []\<rparr>, \<lparr>dims = [0, 6], cells = []\<rparr>])"
proof -
  let ?obj = "PyObj None (NewArray \<lparr>dims = [0, 3], cells = []\<rparr>)"
  let ?h1 = "[\<lparr>dims = [0, 3], cells = [] :: real list\<rparr>]"
  have sp: "specialised INPUT_VALUE_TRIPLET OUTPUT_VALUE_TRIPLET_AND_SEXTET"
    by (simp add: specialised_def)
  have conv: "PyArray_FROM_OTF ?obj [] = (Some 0, ?h1)" by (simp add: PyArray_FROM_OTF_def)
  have dims: "dims (?h1 ! 0) = [0, enum_value INPUT_VALUE_TRIPLET]" by simp
  from callAnyFunctionOnArray_no_rows [OF sp conv dims, of "\<lambda>a i. 0"] obtain v h' where
    all: "\<forall>fnc. callAnyFunctionOnArray INPUT_VALUE_TRIPLET OUTPUT_VALUE_TRIPLET_AND_SEXTET fnc
      (\<lambda>a i. 0) [] [?obj] = Some (Inr v, h')"
    by blast
  have "callAnyFunctionOnArray INPUT_VALUE_TRIPLET OUTPUT_VALUE_TRIPLET_AND_SEXTET (\<lambda>p. Inl [])
      (\<lambda>a i. 0) [] [?obj] =
    Some (Inr (Tuple [Array 1, Array 2]),
      [\<lparr>dims = [0, 3], cells = []\<rparr>, \<lparr>dims = [0, 3], cells = []\<rparr>, \<lparr>dims = [0, 6], cells = []\<rparr>])"
    by (simp add: callAnyFunctionOnArray_def PyArg_ParseTuple_d_def PyArray_FROM_OTF_def
        int_of_npy_intp_def PyArray_SimpleNew_def fnc_loop.simps)
  with all show ?thesis by simp
qed

end
